theory Spec2Isabelle
  imports Main "HOL-Library.Sublist"
begin

section \<open>The flower production facility\<close>

text \<open>
  A shallow embedding of \<^verbatim>\<open>flower_production_facility.py\<close>.

  Python's insertion-ordered dictionaries are association lists whose keys are
  distinct: a new key goes to the end, an assignment to an existing key keeps the
  key's position. One-character strings used as keys (a design's name, a flower's
  species) are characters. Exceptions are values of \<open>error\<close>. What
  \<^verbatim>\<open>print\<close> writes is returned as a list of lines.
\<close>

datatype error = IndexError

subsection \<open>Dictionaries\<close>

fun dict_set :: "'k \<Rightarrow> 'v \<Rightarrow> ('k \<times> 'v) list \<Rightarrow> ('k \<times> 'v) list" where
  "dict_set k v [] = [(k, v)]"
| "dict_set k v ((k', v') # d) =
     (if k' = k then (k', v) # d else (k', v') # dict_set k v d)"

text \<open>\<^verbatim>\<open>dict(pairs)\<close>: the pairs are stored from left to right.\<close>

definition dict_of :: "('k \<times> 'v) list \<Rightarrow> ('k \<times> 'v) list" where
  "dict_of ps = foldl (\<lambda>d (k, v). dict_set k v d) [] ps"

subsection \<open>Text scanning\<close>

text \<open>
  The classes \<^verbatim>\<open>\d\<close> and \<^verbatim>\<open>[a-z]\<close> of the regular expressions. A \<open>char\<close> is one of 256
  characters, and among those \<^verbatim>\<open>\d\<close> matches the ten ASCII digits only.
\<close>

definition isdigit :: "char \<Rightarrow> bool" where
  "isdigit c \<longleftrightarrow> c \<in> set ''0123456789''"

definition islower :: "char \<Rightarrow> bool" where
  "islower c \<longleftrightarrow> c \<in> set ''abcdefghijklmnopqrstuvwxyz''"

text \<open>\<^verbatim>\<open>re.findall(r'\d+', s)\<close>: the maximal runs of digits, from left to right.\<close>

function findall_digits :: "string \<Rightarrow> string list" where
  "findall_digits [] = []"
| "findall_digits (c # cs) =
     (if isdigit c then takeWhile isdigit (c # cs) # findall_digits (dropWhile isdigit cs)
      else findall_digits cs)"
  by pat_completeness auto
termination
  by (relation "measure length") (auto simp: length_dropWhile_le less_Suc_eq_le)

text \<open>\<^verbatim>\<open>re.findall(r'[a-z]', s)\<close>: every lowercase letter, from left to right.\<close>

definition findall_lower :: "string \<Rightarrow> char list" where
  "findall_lower s = filter islower s"

text \<open>
  \<^verbatim>\<open>s.replace(old, '')\<close>: every occurrence of \<open>old\<close> is removed, scanning from the
  left and continuing after each removed occurrence. An empty \<open>old\<close> leaves \<open>s\<close> as
  it is.
\<close>

function replace_by_empty :: "string \<Rightarrow> string \<Rightarrow> string" where
  "replace_by_empty old [] = []"
| "replace_by_empty old (c # cs) =
     (if old \<noteq> [] \<and> prefix old (c # cs)
      then replace_by_empty old (drop (length old) (c # cs))
      else c # replace_by_empty old cs)"
  by pat_completeness auto
termination
  by (relation "measure (\<lambda>(old, s). length s)") (auto simp: Suc_diff_le)

text \<open>
  \<^verbatim>\<open>int(s)\<close> on a string of decimal digits (\<open>decimal\<close>), read in base ten. The program
  converts only strings that \<^verbatim>\<open>\d+\<close> has matched (lemma \<open>create_well_formed\<close>), so the
  conversion never raises, and the theorems below that convert a design's numbers
  assume the design \<open>well_formed\<close>.
\<close>

definition digit_value :: "char \<Rightarrow> int" where
  "digit_value c = int (length (takeWhile (\<lambda>d. d \<noteq> c) ''0123456789''))"

definition int_py :: "string \<Rightarrow> int" where
  "int_py s = foldl (\<lambda>n c. 10 * n + digit_value c) 0 s"

definition decimal :: "string \<Rightarrow> bool" where
  "decimal s \<longleftrightarrow> s \<noteq> [] \<and> list_all isdigit s"

subsection \<open>Bouquet designs\<close>

record design =
  total_number_of_flowers :: string
  flowers :: "(char \<times> string) list"
  bouquet :: string

type_synonym container = "(char \<times> design) list"

text \<open>
  \<^verbatim>\<open>create_bouquet_designs_matching_structure\<close>. \<^verbatim>\<open>bouquet_design[0]\<close> raises on the
  empty string and \<^verbatim>\<open>number_of_flowers.pop()\<close> on a description without a digit after
  its first two characters. The entry of the container is assigned first and filled
  afterwards (lines 112 to 118); the result is one assignment of the finished design:
  a new name goes to the end of the container, a name already there keeps its place and
  gets the new design.
\<close>

definition create_bouquet_designs_matching_structure ::
  "string \<Rightarrow> container \<Rightarrow> error + container" where
  "create_bouquet_designs_matching_structure bouquet_design bouquet_designs_container =
     (case bouquet_design of
        [] \<Rightarrow> Inl IndexError
      | name # _ \<Rightarrow>
          let number_of_flowers = findall_digits (drop 2 bouquet_design);
              flower_names = findall_lower (drop 2 bouquet_design)
          in if number_of_flowers = [] then Inl IndexError
             else
               let total_number = last number_of_flowers;
                   number_of_flowers' = butlast number_of_flowers
               in Inr (dict_set name
                    \<lparr>total_number_of_flowers = total_number,
                     flowers = dict_of (zip flower_names number_of_flowers'),
                     bouquet = replace_by_empty total_number bouquet_design\<rparr>
                    bouquet_designs_container))"

subsection \<open>Matching flowers with designs\<close>

type_synonym counter = "(char \<times> int) list"

text \<open>\<^verbatim>\<open>flowers_counter[key] += 1\<close> on a \<^verbatim>\<open>defaultdict(int)\<close>.\<close>

definition count_of :: "counter \<Rightarrow> char \<Rightarrow> int" where
  "count_of flowers_counter key = (case map_of flowers_counter key of None \<Rightarrow> 0 | Some n \<Rightarrow> n)"

definition increment :: "char \<Rightarrow> counter \<Rightarrow> counter" where
  "increment key flowers_counter = dict_set key (count_of flowers_counter key + 1) flowers_counter"

text \<open>The dictionary comprehension of lines 72 to 74 and the test of line 76.\<close>

definition matching_flower_numbers :: "design \<Rightarrow> counter \<Rightarrow> counter" where
  "matching_flower_numbers d flowers_counter =
     filter (\<lambda>(key, n). case map_of (flowers d) key of
                           None \<Rightarrow> False
                         | Some q \<Rightarrow> n \<ge> int_py q) flowers_counter"

definition enough_flowers :: "design \<Rightarrow> counter \<Rightarrow> bool" where
  "enough_flowers d flowers_counter \<longleftrightarrow>
     length (matching_flower_numbers d flowers_counter) = length (flowers d)"

definition number_of_additional_flowers :: "design \<Rightarrow> int" where
  "number_of_additional_flowers d =
     int_py (total_number_of_flowers d) - sum_list (map (\<lambda>(key, q). int_py q) (flowers d))"

text \<open>The loop of lines 81 to 83.\<close>

definition subtract_flowers :: "design \<Rightarrow> counter \<Rightarrow> counter" where
  "subtract_flowers d flowers_counter =
     map (\<lambda>(key, n). case map_of (flowers d) key of
                        None \<Rightarrow> (key, n)
                      | Some q \<Rightarrow> (key, n - int_py q)) flowers_counter"

text \<open>The loop of lines 88 to 91, which stops at the first key it changes.\<close>

fun subtract_additional :: "int \<Rightarrow> counter \<Rightarrow> counter" where
  "subtract_additional a [] = []"
| "subtract_additional a ((key, n) # flowers_counter) =
     (if n \<ge> a then (key, n - a) # flowers_counter
      else (key, n) # subtract_additional a flowers_counter)"

text \<open>
  The key at which that loop stops: the first key of the counter whose count is at
  least \<open>a\<close>, if there is one.
\<close>

definition taken_from :: "int \<Rightarrow> counter \<Rightarrow> char option" where
  "taken_from a flowers_counter = map_option fst (find (\<lambda>(key, n). a \<le> n) flowers_counter)"

text \<open>Lines 77 to 91: what a design that can be made takes out of the counter.\<close>

definition make_bouquet :: "design \<Rightarrow> counter \<Rightarrow> counter" where
  "make_bouquet d flowers_counter =
     (let a = number_of_additional_flowers d;
          c = subtract_flowers d flowers_counter
      in if a > 0 then subtract_additional a c else c)"

text \<open>
  The loop of lines 71 to 93 over the names of the designs, in the order of the
  container; the names are distinct, so the design looked up under a name is the one
  stored with it. Nothing leaves the loop early: after a bouquet is printed the next
  design is tried on the counter as it now stands. The function returns the counter
  and the lines printed.
\<close>

fun match_designs :: "container \<Rightarrow> counter \<Rightarrow> counter \<times> string list" where
  "match_designs [] flowers_counter = (flowers_counter, [])"
| "match_designs ((bouquet_name, d) # bouquet_designs) flowers_counter =
     (if enough_flowers d flowers_counter
      then (case match_designs bouquet_designs (make_bouquet d flowers_counter) of
              (c, printed) \<Rightarrow> (c, bouquet d # printed))
      else match_designs bouquet_designs flowers_counter)"

definition match_flower_streams_with_bouquet_design_structures ::
  "string \<Rightarrow> container \<Rightarrow> counter \<Rightarrow> error + counter \<times> string list" where
  "match_flower_streams_with_bouquet_design_structures flower bouquet_designs flowers_counter =
     (case flower of
        [] \<Rightarrow> Inl IndexError
      | species # _ \<Rightarrow> Inr (match_designs bouquet_designs (increment species flowers_counter)))"

subsection \<open>The facility\<close>

record facility =
  large_bouquet_designs :: container
  small_bouquet_designs :: container
  large_flowers_counter :: counter
  small_flowers_counter :: counter

text \<open>Lines 37 to 40: one bouquet design goes into one of the two containers.\<close>

definition add_bouquet_design :: "string \<Rightarrow> facility \<Rightarrow> error + facility" where
  "add_bouquet_design bouquet_design f =
     (if CHR ''L'' \<in> set bouquet_design
      then (case create_bouquet_designs_matching_structure bouquet_design (large_bouquet_designs f) of
              Inl e \<Rightarrow> Inl e
            | Inr c \<Rightarrow> Inr (f\<lparr>large_bouquet_designs := c\<rparr>))
      else (case create_bouquet_designs_matching_structure bouquet_design (small_bouquet_designs f) of
              Inl e \<Rightarrow> Inl e
            | Inr c \<Rightarrow> Inr (f\<lparr>small_bouquet_designs := c\<rparr>)))"

fun add_bouquet_designs :: "string list \<Rightarrow> facility \<Rightarrow> error + facility" where
  "add_bouquet_designs [] f = Inr f"
| "add_bouquet_designs (bouquet_design # bouquet_designs) f =
     (case add_bouquet_design bouquet_design f of
        Inl e \<Rightarrow> Inl e
      | Inr f' \<Rightarrow> add_bouquet_designs bouquet_designs f')"

text \<open>Lines 46 to 49: one flower of the stream. \<^verbatim>\<open>flower[1]\<close> needs two characters.\<close>

definition take_flower :: "string \<Rightarrow> facility \<Rightarrow> error + facility \<times> string list" where
  "take_flower flower f =
     (case flower of
        _ # size_letter # _ \<Rightarrow>
          if size_letter = CHR ''L''
          then (case match_flower_streams_with_bouquet_design_structures flower
                       (large_bouquet_designs f) (large_flowers_counter f) of
                  Inl e \<Rightarrow> Inl e
                | Inr (c, printed) \<Rightarrow> Inr (f\<lparr>large_flowers_counter := c\<rparr>, printed))
          else (case match_flower_streams_with_bouquet_design_structures flower
                       (small_bouquet_designs f) (small_flowers_counter f) of
                  Inl e \<Rightarrow> Inl e
                | Inr (c, printed) \<Rightarrow> Inr (f\<lparr>small_flowers_counter := c\<rparr>, printed))
      | _ \<Rightarrow> Inl IndexError)"

text \<open>
  The loop of lines 45 to 49. The result lists, flower by flower, the lines printed
  when that flower was taken; the program's output is their concatenation. An
  exception ends the run, and the result is then the exception alone.
\<close>

fun take_flowers :: "string list \<Rightarrow> facility \<Rightarrow> error + facility \<times> string list list" where
  "take_flowers [] f = Inr (f, [])"
| "take_flowers (flower # stream_of_flowers) f =
     (case take_flower flower f of
        Inl e \<Rightarrow> Inl e
      | Inr (f', printed) \<Rightarrow>
          (case take_flowers stream_of_flowers f' of
             Inl e \<Rightarrow> Inl e
           | Inr (f'', rest) \<Rightarrow> Inr (f'', printed # rest)))"

text \<open>
  \<^verbatim>\<open>production_facility\<close>, from the two lists that the regular expressions extract
  from the input file.
\<close>

definition production_facility ::
  "string list \<Rightarrow> string list \<Rightarrow> error + facility \<times> string list list" where
  "production_facility bouquet_designs stream_of_flowers =
     (case add_bouquet_designs bouquet_designs
             \<lparr>large_bouquet_designs = [], small_bouquet_designs = [],
              large_flowers_counter = [], small_flowers_counter = []\<rparr> of
        Inl e \<Rightarrow> Inl e
      | Inr f \<Rightarrow> take_flowers stream_of_flowers f)"

subsection \<open>The states the program reaches\<close>

text \<open>
  What \<open>create_bouquet_designs_matching_structure\<close> stores in a design: the keys of
  \<open>flowers\<close> are distinct, as in any dictionary, and every number is a string that
  \<^verbatim>\<open>\d+\<close> matched, on which \<open>int_py\<close> is Python's \<^verbatim>\<open>int\<close>.
\<close>

definition well_formed :: "design \<Rightarrow> bool" where
  "well_formed d \<longleftrightarrow>
     distinct (map fst (flowers d)) \<and> decimal (total_number_of_flowers d) \<and>
     (\<forall>(key, q)\<in>set (flowers d). decimal q)"

text \<open>
  The four dictionaries of \<open>production_facility\<close> have distinct keys and hold
  well-formed designs. Every state of a run is of this kind (lemma
  \<open>production_facility_valid\<close>).
\<close>

definition valid_facility :: "facility \<Rightarrow> bool" where
  "valid_facility f \<longleftrightarrow>
     distinct (map fst (large_bouquet_designs f)) \<and>
     distinct (map fst (small_bouquet_designs f)) \<and>
     (\<forall>(name, d)\<in>set (large_bouquet_designs f). well_formed d) \<and>
     (\<forall>(name, d)\<in>set (small_bouquet_designs f). well_formed d) \<and>
     distinct (map fst (large_flowers_counter f)) \<and>
     distinct (map fst (small_flowers_counter f))"

subsection \<open>Notions of the specification\<close>

text \<open>
  The remainder of a well-formed description, as the specification's Recipe Compiler
  describes it: pairs of a quantity and a flower type, then the total quantity.
\<close>

definition description_body :: "(string \<times> char) list \<Rightarrow> string \<Rightarrow> string" where
  "description_body pairs tot = concat (map (\<lambda>(q, l). q @ [l]) pairs) @ tot"

text \<open>
  The specification's "first textual occurrence removed": only the leftmost occurrence
  of \<open>old\<close> is taken out of the string.
\<close>

fun remove_first_occurrence :: "string \<Rightarrow> string \<Rightarrow> string" where
  "remove_first_occurrence old [] = []"
| "remove_first_occurrence old (c # cs) =
     (if prefix old (c # cs) then drop (length old) (c # cs)
      else c # remove_first_occurrence old cs)"

text \<open>
  The order of first appearance, and the species of the flowers of one size class, in
  the order of the stream. A flower belongs to the large class when its second letter
  is L, as line 46 decides.
\<close>

fun first_appearances :: "'a list \<Rightarrow> 'a list" where
  "first_appearances [] = []"
| "first_appearances (x # xs) = x # filter (\<lambda>y. y \<noteq> x) (first_appearances xs)"

definition species_of :: "bool \<Rightarrow> string list \<Rightarrow> char list" where
  "species_of large stream_of_flowers =
     map hd (filter (\<lambda>flower. (flower ! 1 = CHR ''L'') = large) stream_of_flowers)"

text \<open>
  A design that names at least one species and asks a positive number of each.
\<close>

definition positive :: "design \<Rightarrow> bool" where
  "positive d \<longleftrightarrow> flowers d \<noteq> [] \<and> (\<forall>(key, q)\<in>set (flowers d). int_py q > 0)"

subsection \<open>Invariants of the matching loop\<close>

text \<open>
  No design of the container can be made from the counter; and the same together with
  what a run maintains for designs that are all positive.
\<close>

definition quiet :: "container \<Rightarrow> counter \<Rightarrow> bool" where
  "quiet bouquet_designs flowers_counter \<longleftrightarrow>
     (\<forall>(name, d)\<in>set bouquet_designs. \<not> enough_flowers d flowers_counter)"

definition steady :: "container \<Rightarrow> counter \<Rightarrow> bool" where
  "steady bouquet_designs flowers_counter \<longleftrightarrow>
     distinct (map fst flowers_counter) \<and>
     (\<forall>(name, d)\<in>set bouquet_designs. distinct (map fst (flowers d)) \<and> positive d) \<and>
     quiet bouquet_designs flowers_counter"

definition facility_steady :: "facility \<Rightarrow> bool" where
  "facility_steady f \<longleftrightarrow>
     steady (large_bouquet_designs f) (large_flowers_counter f) \<and>
     steady (small_bouquet_designs f) (small_flowers_counter f)"

section \<open>Dictionaries keep their keys distinct\<close>

lemma dict_set_keys:
  "map fst (dict_set k v d) = (if k \<in> set (map fst d) then map fst d else map fst d @ [k])"
  by (induction d) (force+)

lemma dict_set_distinct: "distinct (map fst d) \<Longrightarrow> distinct (map fst (dict_set k v d))"
  by (simp add: dict_set_keys)

lemma map_of_dict_set: "map_of (dict_set k v d) = (map_of d)(k \<mapsto> v)"
  by (induction d) auto

lemma dict_set_fresh: "k \<notin> set (map fst d) \<Longrightarrow> dict_set k v d = d @ [(k, v)]"
  by (induction d) auto

lemma set_dict_set: "set (dict_set k v d) \<subseteq> insert (k, v) (set d)"
  by (induction d) (auto split: if_splits)

lemma foldl_dict_set_distinct:
  "distinct (map fst (d @ ps)) \<Longrightarrow> foldl (\<lambda>d (k, v). dict_set k v d) d ps = d @ ps"
proof (induction ps arbitrary: d)
  case Nil then show ?case by simp
next
  case (Cons p ps)
  obtain k v where p: "p = (k, v)" by (cases p)
  from Cons.prems p have "k \<notin> set (map fst d)" by auto
  then have "dict_set k v d = d @ [(k, v)]" by (rule dict_set_fresh)
  moreover have "distinct (map fst ((d @ [(k, v)]) @ ps))" using Cons.prems p by simp
  ultimately show ?case using Cons.IH[of "d @ [(k, v)]"] p by simp
qed

lemma dict_of_distinct: "distinct (map fst ps) \<Longrightarrow> dict_of ps = ps"
  using foldl_dict_set_distinct[of "[]" ps] by (simp add: dict_of_def)

lemma foldl_dict_set_keys_distinct:
  "distinct (map fst d) \<Longrightarrow> distinct (map fst (foldl (\<lambda>d (k, v). dict_set k v d) d ps))"
  by (induction ps arbitrary: d) (auto simp: dict_set_distinct)

lemma dict_of_keys_distinct: "distinct (map fst (dict_of ps))"
  by (simp add: dict_of_def foldl_dict_set_keys_distinct)

lemma foldl_dict_set_values:
  "snd ` set (foldl (\<lambda>d (k, v). dict_set k v d) d ps) \<subseteq> snd ` set d \<union> snd ` set ps"
proof (induction ps arbitrary: d)
  case Nil then show ?case by simp
next
  case (Cons p ps)
  obtain k v where p: "p = (k, v)" by (cases p)
  have "snd ` set (dict_set k v d) \<subseteq> insert v (snd ` set d)"
    using set_dict_set[of k v d] by force
  with Cons.IH[of "dict_set k v d"] p show ?case by auto
qed

lemma dict_of_values: "snd ` set (dict_of ps) \<subseteq> snd ` set ps"
  using foldl_dict_set_values[of "[]" ps] by (simp add: dict_of_def)

section \<open>Compiling a design\<close>

subsection \<open>Scanning a description\<close>

lemma islower_not_isdigit: "islower c \<Longrightarrow> \<not> isdigit c"
  by (auto simp: islower_def isdigit_def)

lemma findall_digits_decimal: "decimal q \<Longrightarrow> findall_digits q = [q]"
proof -
  assume "decimal q"
  then obtain c cs where q: "q = c # cs" and c: "isdigit c" and cs: "\<forall>x\<in>set cs. isdigit x"
    by (cases q) (auto simp: decimal_def list_all_iff)
  from cs have "takeWhile isdigit cs = cs" and dw: "dropWhile isdigit cs = []" by simp_all
  then show ?thesis unfolding q using c by (simp del: dropWhile_eq_Nil_conv)
qed

lemma findall_digits_run:
  assumes "decimal q" "\<not> isdigit l"
  shows "findall_digits (q @ l # rest) = q # findall_digits rest"
proof -
  from assms obtain c cs where q: "q = c # cs" and c: "isdigit c" and cs: "\<forall>x\<in>set cs. isdigit x"
    by (cases q) (auto simp: decimal_def list_all_iff)
  have "takeWhile isdigit (cs @ l # rest) = cs" using cs assms(2) by (simp add: takeWhile_append2 takeWhile_tail)
  moreover have "dropWhile isdigit (cs @ l # rest) = l # rest" using cs assms(2) by (simp add: dropWhile_append2 dropWhile_append3)
  ultimately show ?thesis using q c assms(2) by simp
qed

lemma findall_digits_body:
  "decimal tot \<Longrightarrow> \<forall>(q, l)\<in>set pairs. decimal q \<and> islower l \<Longrightarrow>
   findall_digits (description_body pairs tot) = map fst pairs @ [tot]"
  by (induction pairs) (auto simp: description_body_def findall_digits_decimal findall_digits_run islower_not_isdigit)

lemma findall_lower_body:
  "decimal tot \<Longrightarrow> \<forall>(q, l)\<in>set pairs. decimal q \<and> islower l \<Longrightarrow>
   findall_lower (description_body pairs tot) = map snd pairs"
proof (induction pairs)
  case Nil
  then show ?case by (auto simp: description_body_def findall_lower_def decimal_def list_all_iff filter_empty_conv dest: islower_not_isdigit)
next
  case (Cons p pairs)
  obtain q l where p: "p = (q, l)" by (cases p)
  with Cons.prems have "decimal q" "islower l" by auto
  then have "filter islower q = []" by (auto simp: decimal_def list_all_iff filter_empty_conv dest: islower_not_isdigit)
  with Cons p \<open>islower l\<close> show ?case by (auto simp: description_body_def findall_lower_def)
qed

lemma findall_digits_occurs:
  "t \<in> set (findall_digits s) \<Longrightarrow> t \<noteq> [] \<and> (\<exists>i. prefix t (drop i s))"
proof (induction s rule: findall_digits.induct)
  case 1 then show ?case by simp
next
  case (2 c cs)
  show ?case
  proof (cases "isdigit c")
    case True
    with "2.prems" consider "t = takeWhile isdigit (c # cs)"
      | "t \<in> set (findall_digits (dropWhile isdigit cs))" by auto
    then show ?thesis
    proof cases
      case 1
      have "prefix (takeWhile isdigit (c # cs)) (drop 0 (c # cs))"
        unfolding drop_0 by (rule takeWhile_is_prefix)
      with 1 have "prefix t (drop 0 (c # cs))" by (simp only:)
      moreover from 1 True have "t \<noteq> []" by simp
      ultimately show ?thesis by blast
    next
      case 2
      with "2.IH"(1) True obtain i where t: "t \<noteq> []" and i: "prefix t (drop i (dropWhile isdigit cs))"
        by blast
      have "dropWhile isdigit cs = drop (length (takeWhile isdigit cs)) cs"
        by (rule dropWhile_eq_drop)
      with i have "prefix t (drop (Suc (i + length (takeWhile isdigit cs))) (c # cs))"
        by simp
      with t show ?thesis by blast
    qed
  next
    case False
    with "2.prems" "2.IH"(2) obtain i where "t \<noteq> []" "prefix t (drop i cs)" by auto
    then have "t \<noteq> []" "prefix t (drop (Suc i) (c # cs))" by simp_all
    then show ?thesis by blast
  qed
qed

lemma findall_digits_decimal_elems: "t \<in> set (findall_digits s) \<Longrightarrow> decimal t"
proof (induction s rule: findall_digits.induct)
  case 1 then show ?case by simp
next
  case (2 c cs)
  show ?case
  proof (cases "isdigit c")
    case True
    with "2.prems" consider "t = c # takeWhile isdigit cs"
      | "t \<in> set (findall_digits (dropWhile isdigit cs))" by auto
    then show ?thesis
    proof cases
      case 1
      with True show ?thesis
        by (auto simp: decimal_def list_all_iff dest: set_takeWhileD)
    next
      case 2 with "2.IH"(1) True show ?thesis by blast
    qed
  next
    case False
    with "2.prems" "2.IH"(2) show ?thesis by auto
  qed
qed

subsection \<open>The compiled design\<close>

lemma create_Inr:
  assumes "create_bouquet_designs_matching_structure bd cont = Inr cont'"
  shows "bd \<noteq> [] \<and> findall_digits (drop 2 bd) \<noteq> [] \<and>
         cont' = dict_set (hd bd)
           \<lparr>total_number_of_flowers = last (findall_digits (drop 2 bd)),
            flowers = dict_of (zip (findall_lower (drop 2 bd)) (butlast (findall_digits (drop 2 bd)))),
            bouquet = replace_by_empty (last (findall_digits (drop 2 bd))) bd\<rparr> cont"
  using assms
  by (auto simp: create_bouquet_designs_matching_structure_def Let_def split: list.splits if_splits)

lemma create_total:
  "findall_digits (drop 2 bd) \<noteq> [] \<Longrightarrow>
   \<exists>cont'. create_bouquet_designs_matching_structure bd cont = Inr cont'"
  by (cases bd) (auto simp: create_bouquet_designs_matching_structure_def Let_def)

lemma create_well_formed:
  assumes "create_bouquet_designs_matching_structure bd cont = Inr cont'"
    and "\<forall>(name, d)\<in>set cont. well_formed d"
  shows "\<forall>(name, d)\<in>set cont'. well_formed d"
proof -
  let ?nums = "findall_digits (drop 2 bd)"
  let ?d = "\<lparr>total_number_of_flowers = last ?nums,
            flowers = dict_of (zip (findall_lower (drop 2 bd)) (butlast ?nums)),
            bouquet = replace_by_empty (last ?nums) bd\<rparr>"
  from create_Inr[OF assms(1)] have ne: "?nums \<noteq> []"
    and c': "cont' = dict_set (hd bd) ?d cont" by auto
  from ne have "last ?nums \<in> set ?nums" by simp
  then have t: "decimal (last ?nums)" by (rule findall_digits_decimal_elems)
  have "\<forall>(key, q)\<in>set (flowers ?d). decimal q"
  proof (clarify)
    fix key q assume "(key, q) \<in> set (flowers ?d)"
    then have "q \<in> snd ` set (dict_of (zip (findall_lower (drop 2 bd)) (butlast ?nums)))"
      by force
    then have "q \<in> snd ` set (zip (findall_lower (drop 2 bd)) (butlast ?nums))"
      by (rule subsetD[OF dict_of_values])
    then have "q \<in> set (butlast ?nums)" by (auto dest: set_zip_rightD)
    then have "q \<in> set ?nums" by (rule in_set_butlastD)
    then show "decimal q" by (rule findall_digits_decimal_elems)
  qed
  with t have w: "well_formed ?d" by (simp add: well_formed_def dict_of_keys_distinct)
  show ?thesis
  proof (clarify)
    fix name d assume "(name, d) \<in> set cont'"
    with c' set_dict_set[of "hd bd" ?d cont] have "d = ?d \<or> (name, d) \<in> set cont" by blast
    with w assms(2) show "well_formed d" by blast
  qed
qed

lemma create_distinct:
  assumes "create_bouquet_designs_matching_structure bd cont = Inr cont'"
    and "distinct (map fst cont)"
  shows "distinct (map fst cont')"
  using create_Inr[OF assms(1)] assms(2) by (auto simp: dict_set_distinct)

text \<open>
  Claim C7. For a description whose remainder is a sequence of pairs (a decimal
  quantity, then a lowercase letter) followed by a decimal total, the scan finds the
  quantities and the letters in order, the last quantity becomes
  \<open>total_number_of_flowers\<close>, and \<open>flowers\<close> pairs the letters with the remaining
  quantities by position (as they stand when the letters are distinct). The description
  \<^verbatim>\<open>AS10a10b25\<close> compiles to the flowers a: 10 and b: 10, the total 25 and the
  bouquet \<^verbatim>\<open>AS10a10b\<close>.
\<close>

theorem compile_description:
  "(decimal tot \<and> (\<forall>(q, l)\<in>set pairs. decimal q \<and> islower l) \<longrightarrow>
     findall_digits (description_body pairs tot) = map fst pairs @ [tot] \<and>
     findall_lower (description_body pairs tot) = map snd pairs \<and>
     (\<exists>d. create_bouquet_designs_matching_structure
             (name # size_letter # description_body pairs tot) bouquet_designs_container
             = Inr (dict_set name d bouquet_designs_container) \<and>
          total_number_of_flowers d = tot \<and>
          flowers d = dict_of (zip (map snd pairs) (map fst pairs)) \<and>
          (distinct (map snd pairs) \<longrightarrow> flowers d = zip (map snd pairs) (map fst pairs)))) \<and>
   create_bouquet_designs_matching_structure ''AS10a10b25'' [] =
     Inr [(CHR ''A'', \<lparr>total_number_of_flowers = ''25'',
                       flowers = [(CHR ''a'', ''10''), (CHR ''b'', ''10'')],
                       bouquet = ''AS10a10b''\<rparr>)]"
proof (intro conjI impI)
  assume a: "decimal tot \<and> (\<forall>(q, l)\<in>set pairs. decimal q \<and> islower l)"
  then have fd: "findall_digits (description_body pairs tot) = map fst pairs @ [tot]"
    and fl: "findall_lower (description_body pairs tot) = map snd pairs"
    by (simp_all add: findall_digits_body findall_lower_body)
  show "findall_digits (description_body pairs tot) = map fst pairs @ [tot]" by (rule fd)
  show "findall_lower (description_body pairs tot) = map snd pairs" by (rule fl)
  let ?d = "\<lparr>total_number_of_flowers = tot,
            flowers = dict_of (zip (map snd pairs) (map fst pairs)),
            bouquet = replace_by_empty tot (name # size_letter # description_body pairs tot)\<rparr>"
  have "create_bouquet_designs_matching_structure
          (name # size_letter # description_body pairs tot) bouquet_designs_container
        = Inr (dict_set name ?d bouquet_designs_container)"
    by (simp add: create_bouquet_designs_matching_structure_def fd fl)
  moreover have "distinct (map snd pairs) \<longrightarrow> flowers ?d = zip (map snd pairs) (map fst pairs)"
    by (simp add: dict_of_distinct)
  ultimately show "\<exists>d. create_bouquet_designs_matching_structure
             (name # size_letter # description_body pairs tot) bouquet_designs_container
             = Inr (dict_set name d bouquet_designs_container) \<and>
          total_number_of_flowers d = tot \<and>
          flowers d = dict_of (zip (map snd pairs) (map fst pairs)) \<and>
          (distinct (map snd pairs) \<longrightarrow> flowers d = zip (map snd pairs) (map fst pairs))"
    by (intro exI[of _ ?d]) simp
next
  show "create_bouquet_designs_matching_structure ''AS10a10b25'' [] =
     Inr [(CHR ''A'', \<lparr>total_number_of_flowers = ''25'',
                       flowers = [(CHR ''a'', ''10''), (CHR ''b'', ''10'')],
                       bouquet = ''AS10a10b''\<rparr>)]"
    by (simp add: create_bouquet_designs_matching_structure_def findall_lower_def dict_of_def
      isdigit_def islower_def Let_def)
qed

text \<open>The design \<^verbatim>\<open>BS10b5c16\<close> of the source's docstring.\<close>

theorem compile_description_witness:
  "decimal ''16'' \<and> decimal ''10'' \<and> decimal ''5'' \<and> islower CHR ''b'' \<and> islower CHR ''c'' \<and>
   description_body [(''10'', CHR ''b''), (''5'', CHR ''c'')] ''16'' = ''10b5c16'' \<and>
   findall_digits ''10b5c16'' = [''10'', ''5'', ''16''] \<and>
   findall_lower ''10b5c16'' = ''bc'' \<and>
   (\<exists>d. create_bouquet_designs_matching_structure ''BS10b5c16'' [] = Inr [(CHR ''B'', d)] \<and>
        total_number_of_flowers d = ''16'' \<and>
        flowers d = [(CHR ''b'', ''10''), (CHR ''c'', ''5'')])"
proof -
  have n: "decimal ''16''" "decimal ''10''" "decimal ''5''" "islower CHR ''b''" "islower CHR ''c''"
    by (simp_all add: decimal_def isdigit_def islower_def)
  have b: "description_body [(''10'', CHR ''b''), (''5'', CHR ''c'')] ''16'' = ''10b5c16''"
    by (simp add: description_body_def)
  from n have h: "decimal ''16'' \<and>
      (\<forall>(q, l)\<in>set [(''10'', CHR ''b''), (''5'', CHR ''c'')]. decimal q \<and> islower l)"
    by simp
  note T = compile_description[of "''16''" "[(''10'', CHR ''b''), (''5'', CHR ''c'')]"
      "CHR ''B''" "CHR ''S''" "[]", THEN conjunct1, THEN mp, OF h, unfolded b]
  from T have fd: "findall_digits ''10b5c16'' = [''10'', ''5'', ''16'']"
    and fl: "findall_lower ''10b5c16'' = ''bc''" by simp_all
  from T obtain d where
    "create_bouquet_designs_matching_structure ''BS10b5c16'' [] = Inr [(CHR ''B'', d)]"
    "total_number_of_flowers d = ''16''"
    "flowers d = [(CHR ''b'', ''10''), (CHR ''c'', ''5'')]"
    by auto
  then have "\<exists>d. create_bouquet_designs_matching_structure ''BS10b5c16'' [] = Inr [(CHR ''B'', d)] \<and>
        total_number_of_flowers d = ''16'' \<and>
        flowers d = [(CHR ''b'', ''10''), (CHR ''c'', ''5'')]"
    by blast
  with fd fl
  have "findall_digits ''10b5c16'' = [''10'', ''5'', ''16''] \<and>
   findall_lower ''10b5c16'' = ''bc'' \<and>
   (\<exists>d. create_bouquet_designs_matching_structure ''BS10b5c16'' [] = Inr [(CHR ''B'', d)] \<and>
        total_number_of_flowers d = ''16'' \<and>
        flowers d = [(CHR ''b'', ''10''), (CHR ''c'', ''5'')])"
    by blast
  with n b show ?thesis by blast
qed

subsection \<open>Removing the total from the description\<close>

lemma replace_by_empty_absent:
  "old \<noteq> [] \<Longrightarrow> \<forall>i. \<not> prefix old (drop i s) \<Longrightarrow> replace_by_empty old s = s"
proof (induction s)
  case Nil then show ?case by simp
next
  case (Cons c cs)
  from Cons.prems(2) have "\<not> prefix old (drop 0 (c # cs))" by blast
  moreover have "\<forall>i. \<not> prefix old (drop i cs)"
  proof
    fix i from Cons.prems(2) have "\<not> prefix old (drop (Suc i) (c # cs))" by blast
    then show "\<not> prefix old (drop i cs)" by simp
  qed
  ultimately show ?case using Cons by simp
qed

lemma replace_by_empty_once:
  "old \<noteq> [] \<Longrightarrow> prefix old (drop i s) \<Longrightarrow> \<forall>j. j \<noteq> i \<longrightarrow> \<not> prefix old (drop j s) \<Longrightarrow>
   replace_by_empty old s = take i s @ drop (i + length old) s"
proof (induction i arbitrary: s)
  case 0
  then obtain c cs where s: "s = c # cs" by (cases s) auto
  have "\<forall>j. \<not> prefix old (drop j (drop (length old) s))"
  proof
    fix j
    from "0.prems"(1) have "j + length old \<noteq> 0" by simp
    with "0.prems"(3) have "\<not> prefix old (drop (j + length old) s)" by blast
    then show "\<not> prefix old (drop j (drop (length old) s))" by simp
  qed
  with "0.prems"(1) have "replace_by_empty old (drop (length old) s) = drop (length old) s"
    by (rule replace_by_empty_absent)
  with 0 s show ?case by simp
next
  case (Suc i)
  from Suc.prems(1,2) obtain c cs where s: "s = c # cs" by (cases s) auto
  from Suc.prems(3) have "\<not> prefix old (drop 0 s)" by blast
  then have n0: "\<not> prefix old (c # cs)" using s by simp
  have "\<forall>j. j \<noteq> i \<longrightarrow> \<not> prefix old (drop j cs)"
  proof (intro allI impI)
    fix j assume "j \<noteq> i"
    then have "Suc j \<noteq> Suc i" by simp
    with Suc.prems(3) have "\<not> prefix old (drop (Suc j) s)" by blast
    then show "\<not> prefix old (drop j cs)" using s by simp
  qed
  moreover from Suc.prems(2) s have "prefix old (drop i cs)" by simp
  ultimately have "replace_by_empty old cs = take i cs @ drop (i + length old) cs"
    using Suc.IH Suc.prems(1) by blast
  with n0 s show ?case by simp
qed

lemma remove_first_occurrence_at:
  "old \<noteq> [] \<Longrightarrow> prefix old (drop i s) \<Longrightarrow> \<forall>j<i. \<not> prefix old (drop j s) \<Longrightarrow>
   remove_first_occurrence old s = take i s @ drop (i + length old) s"
proof (induction i arbitrary: s)
  case 0
  then obtain c cs where s: "s = c # cs" by (cases s) auto
  with 0 show ?case by simp
next
  case (Suc i)
  from Suc.prems(1,2) obtain c cs where s: "s = c # cs" by (cases s) auto
  from Suc.prems(3) have "\<not> prefix old (drop 0 s)" by blast
  then have n0: "\<not> prefix old (c # cs)" using s by simp
  have "\<forall>j<i. \<not> prefix old (drop j cs)"
  proof (intro allI impI)
    fix j assume "j < i"
    then have "Suc j < Suc i" by simp
    with Suc.prems(3) have "\<not> prefix old (drop (Suc j) s)" by blast
    then show "\<not> prefix old (drop j cs)" using s by simp
  qed
  moreover from Suc.prems(2) s have "prefix old (drop i cs)" by simp
  ultimately have "remove_first_occurrence old cs = take i cs @ drop (i + length old) cs"
    using Suc.IH Suc.prems(1) by blast
  with n0 s show ?case by simp
qed

text \<open>
  Claim C6, as amended. When the numeral of the total number of flowers occurs exactly
  once in the description, the design's \<open>bouquet\<close> is the description's first two
  letters followed by the remainder with that (first and only) occurrence removed.
  Line 118 removes every occurrence of the numeral, so the claim as written, with only
  the first occurrence removed, fails for a description that repeats it.
\<close>

theorem display_code_single_occurrence:
  assumes "create_bouquet_designs_matching_structure bouquet_design bouquet_designs_container
             = Inr container'"
  shows "\<exists>d. map_of container' (hd bouquet_design) = Some d \<and>
           ((\<exists>!i. prefix (total_number_of_flowers d) (drop i bouquet_design)) \<longrightarrow>
              bouquet d = take 2 bouquet_design @
                remove_first_occurrence (total_number_of_flowers d) (drop 2 bouquet_design))"
proof -
  let ?bd = bouquet_design
  let ?t = "last (findall_digits (drop 2 ?bd))"
  let ?d = "\<lparr>total_number_of_flowers = ?t,
            flowers = dict_of (zip (findall_lower (drop 2 ?bd)) (butlast (findall_digits (drop 2 ?bd)))),
            bouquet = replace_by_empty ?t ?bd\<rparr>"
  from create_Inr[OF assms] have ne: "findall_digits (drop 2 ?bd) \<noteq> []"
    and c': "container' = dict_set (hd ?bd) ?d bouquet_designs_container" by auto
  from c' have m: "map_of container' (hd ?bd) = Some ?d" by (simp add: map_of_dict_set)
  from ne have "?t \<in> set (findall_digits (drop 2 ?bd))" by simp
  then have t: "?t \<noteq> []" and "\<exists>i. prefix ?t (drop i (drop 2 ?bd))"
    using findall_digits_occurs by blast+
  then have "\<exists>i. prefix ?t (drop i (drop 2 ?bd)) \<and> (\<forall>j<i. \<not> prefix ?t (drop j (drop 2 ?bd)))"
    using exists_least_iff[of "\<lambda>i. prefix ?t (drop i (drop 2 ?bd))"] by blast
  then obtain k where k: "prefix ?t (drop k (drop 2 ?bd))"
    and least: "\<forall>j<k. \<not> prefix ?t (drop j (drop 2 ?bd))" by blast
  have "bouquet ?d = take 2 ?bd @ remove_first_occurrence ?t (drop 2 ?bd)"
    if u: "\<exists>!i. prefix ?t (drop i ?bd)"
  proof -
    from k have k2: "prefix ?t (drop (2 + k) ?bd)" by (simp add: add.commute)
    with u have "\<forall>j. j \<noteq> 2 + k \<longrightarrow> \<not> prefix ?t (drop j ?bd)" by blast
    with t k2 have "replace_by_empty ?t ?bd = take (2 + k) ?bd @ drop (2 + k + length ?t) ?bd"
      by (rule replace_by_empty_once)
    moreover from t k least
    have "remove_first_occurrence ?t (drop 2 ?bd)
            = take k (drop 2 ?bd) @ drop (k + length ?t) (drop 2 ?bd)"
      by (rule remove_first_occurrence_at)
    moreover have "take (2 + k) ?bd = take 2 ?bd @ take k (drop 2 ?bd)"
      by (rule take_add)
    moreover have "drop (k + length ?t) (drop 2 ?bd) = drop (2 + k + length ?t) ?bd"
      by (simp add: add.commute add.left_commute)
    ultimately show ?thesis by (simp only: design.simps append_assoc)
  qed
  with m show ?thesis by auto
qed

text \<open>
  The description \<^verbatim>\<open>AS10a10\<close> has the total 10 and the bouquet \<^verbatim>\<open>ASa\<close>; removing only
  the first occurrence would leave \<^verbatim>\<open>ASa10\<close>.
\<close>

theorem display_code_counterexample:
  "\<not> (\<forall>bd c c' d. create_bouquet_designs_matching_structure bd c = Inr c' \<longrightarrow>
        map_of c' (hd bd) = Some d \<longrightarrow>
        bouquet d = take 2 bd @ remove_first_occurrence (total_number_of_flowers d) (drop 2 bd))"
proof
  assume a: "\<forall>bd c c' d. create_bouquet_designs_matching_structure bd c = Inr c' \<longrightarrow>
        map_of c' (hd bd) = Some d \<longrightarrow>
        bouquet d = take 2 bd @ remove_first_occurrence (total_number_of_flowers d) (drop 2 bd)"
  have e: "create_bouquet_designs_matching_structure ''AS10a10'' [] =
     Inr [(CHR ''A'', \<lparr>total_number_of_flowers = ''10'', flowers = [(CHR ''a'', ''10'')],
                       bouquet = ''ASa''\<rparr>)]"
    by (simp add: create_bouquet_designs_matching_structure_def findall_lower_def dict_of_def
      isdigit_def islower_def Let_def)
  from a[rule_format, OF e] show False by simp
qed

text \<open>In \<^verbatim>\<open>AS1a2\<close> the total 2 occurs once, at position 4.\<close>

theorem display_code_single_occurrence_witness:
  "create_bouquet_designs_matching_structure ''AS1a2'' [] =
     Inr [(CHR ''A'', \<lparr>total_number_of_flowers = ''2'', flowers = [(CHR ''a'', ''1'')],
                       bouquet = ''AS1a''\<rparr>)] \<and>
   (\<exists>!i. prefix ''2'' (drop i ''AS1a2'')) \<and>
   ''AS1a'' = take 2 ''AS1a2'' @ remove_first_occurrence ''2'' (drop 2 ''AS1a2'')"
proof -
  have e: "create_bouquet_designs_matching_structure ''AS1a2'' [] =
     Inr [(CHR ''A'', \<lparr>total_number_of_flowers = ''2'', flowers = [(CHR ''a'', ''1'')],
                       bouquet = ''AS1a''\<rparr>)]"
    by (simp add: create_bouquet_designs_matching_structure_def findall_lower_def dict_of_def
      isdigit_def islower_def Let_def)
  have u: "\<exists>!i. prefix ''2'' (drop i ''AS1a2'')"
  proof (rule ex1I[of _ 4])
    show "prefix ''2'' (drop 4 ''AS1a2'')" by simp
  next
    fix x assume p: "prefix ''2'' (drop x ''AS1a2'')"
    have "x = 0 \<or> x = 1 \<or> x = 2 \<or> x = 3 \<or> x = 4 \<or> 5 \<le> x" by arith
    then show "x = 4" using p by (elim disjE) simp_all
  qed
  from display_code_single_occurrence[OF e] u
  have "''AS1a'' = take 2 ''AS1a2'' @ remove_first_occurrence ''2'' (drop 2 ''AS1a2'')"
    by simp
  with e u show ?thesis by blast
qed

section \<open>The two containers\<close>

lemma add_bouquet_design_Inr:
  assumes "add_bouquet_design bd f = Inr f'"
  shows "large_flowers_counter f' = large_flowers_counter f \<and>
         small_flowers_counter f' = small_flowers_counter f \<and>
         (if CHR ''L'' \<in> set bd
          then create_bouquet_designs_matching_structure bd (large_bouquet_designs f)
                 = Inr (large_bouquet_designs f') \<and>
               small_bouquet_designs f' = small_bouquet_designs f
          else create_bouquet_designs_matching_structure bd (small_bouquet_designs f)
                 = Inr (small_bouquet_designs f') \<and>
               large_bouquet_designs f' = large_bouquet_designs f)"
proof (cases "CHR ''L'' \<in> set bd")
  case True
  with assms show ?thesis
    by (cases "create_bouquet_designs_matching_structure bd (large_bouquet_designs f)")
       (auto simp: add_bouquet_design_def)
next
  case False
  with assms show ?thesis
    by (cases "create_bouquet_designs_matching_structure bd (small_bouquet_designs f)")
       (auto simp: add_bouquet_design_def)
qed

text \<open>
  Claim C2. Line 37 asks whether the letter L occurs anywhere in the description, not
  whether it stands at position 1: the small design \<^verbatim>\<open>LS1a2\<close>, whose name is L, is
  stored in the container of the large designs and the container of the small designs
  stays empty.
\<close>

theorem small_design_named_L:
  "add_bouquet_design ''LS1a2''
     \<lparr>large_bouquet_designs = [], small_bouquet_designs = [],
      large_flowers_counter = [], small_flowers_counter = []\<rparr> =
   Inr \<lparr>large_bouquet_designs =
          [(CHR ''L'', \<lparr>total_number_of_flowers = ''2'', flowers = [(CHR ''a'', ''1'')],
                        bouquet = ''LS1a''\<rparr>)],
        small_bouquet_designs = [],
        large_flowers_counter = [], small_flowers_counter = []\<rparr>"
  by (simp add: add_bouquet_design_def create_bouquet_designs_matching_structure_def
      findall_lower_def dict_of_def isdigit_def islower_def Let_def)

lemma add_bouquet_design_valid:
  assumes "add_bouquet_design bd f = Inr f'" and "valid_facility f"
  shows "valid_facility f'"
proof (cases "CHR ''L'' \<in> set bd")
  case True
  from add_bouquet_design_Inr[OF assms(1)] True
  have c: "create_bouquet_designs_matching_structure bd (large_bouquet_designs f)
             = Inr (large_bouquet_designs f')"
    and s: "small_bouquet_designs f' = small_bouquet_designs f"
      "large_flowers_counter f' = large_flowers_counter f"
      "small_flowers_counter f' = small_flowers_counter f" by simp_all
  from assms(2) have w: "\<forall>(name, d)\<in>set (large_bouquet_designs f). well_formed d"
    and d: "distinct (map fst (large_bouquet_designs f))"
    by (simp_all add: valid_facility_def)
  from create_well_formed[OF c w] create_distinct[OF c d] s assms(2)
  show ?thesis by (simp add: valid_facility_def)
next
  case False
  from add_bouquet_design_Inr[OF assms(1)] False
  have c: "create_bouquet_designs_matching_structure bd (small_bouquet_designs f)
             = Inr (small_bouquet_designs f')"
    and s: "large_bouquet_designs f' = large_bouquet_designs f"
      "large_flowers_counter f' = large_flowers_counter f"
      "small_flowers_counter f' = small_flowers_counter f" by simp_all
  from assms(2) have w: "\<forall>(name, d)\<in>set (small_bouquet_designs f). well_formed d"
    and d: "distinct (map fst (small_bouquet_designs f))"
    by (simp_all add: valid_facility_def)
  from create_well_formed[OF c w] create_distinct[OF c d] s assms(2)
  show ?thesis by (simp add: valid_facility_def)
qed

lemma add_bouquet_designs_valid:
  "add_bouquet_designs bds f = Inr f' \<Longrightarrow> valid_facility f \<Longrightarrow>
     valid_facility f' \<and> large_flowers_counter f' = large_flowers_counter f \<and>
     small_flowers_counter f' = small_flowers_counter f"
proof (induction bds arbitrary: f)
  case Nil then show ?case by simp
next
  case (Cons bd bds)
  from Cons.prems(1) obtain f1 where a: "add_bouquet_design bd f = Inr f1"
    and b: "add_bouquet_designs bds f1 = Inr f'"
    by (auto split: sum.splits)
  from add_bouquet_design_valid[OF a Cons.prems(2)] have "valid_facility f1" .
  from Cons.IH[OF b this] add_bouquet_design_Inr[OF a] show ?case by simp
qed

lemma add_bouquet_designs_total:
  "\<forall>bd\<in>set bds. findall_digits (drop 2 bd) \<noteq> [] \<Longrightarrow> \<exists>f'. add_bouquet_designs bds f = Inr f'"
proof (induction bds arbitrary: f)
  case Nil then show ?case by simp
next
  case (Cons bd bds)
  from Cons.prems have d: "findall_digits (drop 2 bd) \<noteq> []" by simp
  have "\<exists>f1. add_bouquet_design bd f = Inr f1"
  proof (cases "CHR ''L'' \<in> set bd")
    case True
    from create_total[OF d, of "large_bouquet_designs f"] True show ?thesis
      by (auto simp: add_bouquet_design_def)
  next
    case False
    from create_total[OF d, of "small_bouquet_designs f"] False show ?thesis
      by (auto simp: add_bouquet_design_def)
  qed
  then obtain f1 where a: "add_bouquet_design bd f = Inr f1" by blast
  from Cons.prems have "\<forall>bd\<in>set bds. findall_digits (drop 2 bd) \<noteq> []" by simp
  from Cons.IH[OF this, of f1] a show ?case by auto
qed

section \<open>The counter\<close>

lemma keys_image: "fst ` set c = set (map fst c)"
  by simp

lemma count_of_Cons: "count_of ((k', n') # c) k = (if k = k' then n' else count_of c k)"
  by (simp add: count_of_def)

lemma count_of_absent: "k \<notin> fst ` set c \<Longrightarrow> count_of c k = 0"
  by (simp add: count_of_def map_of_eq_None_iff[THEN iffD2])

lemma count_of_present: "distinct (map fst c) \<Longrightarrow> (k, n) \<in> set c \<Longrightarrow> count_of c k = n"
  by (simp add: count_of_def)

lemma keys_increment:
  "map fst (increment k c) = (if k \<in> set (map fst c) then map fst c else map fst c @ [k])"
  by (simp add: increment_def dict_set_keys)

lemma count_of_increment:
  "count_of (increment k c) k' = (if k' = k then count_of c k + 1 else count_of c k')"
  by (simp add: increment_def count_of_def map_of_dict_set)

lemma distinct_increment: "distinct (map fst c) \<Longrightarrow> distinct (map fst (increment k c))"
  by (simp add: increment_def dict_set_distinct)

lemma keys_subtract_flowers: "map fst (subtract_flowers d c) = map fst c"
  by (induction c) (auto simp: subtract_flowers_def split: option.splits)

lemma keys_subtract_additional: "map fst (subtract_additional a c) = map fst c"
  by (induction a c rule: subtract_additional.induct) auto

lemma keys_make_bouquet: "map fst (make_bouquet d c) = map fst c"
  by (simp add: make_bouquet_def Let_def keys_subtract_flowers keys_subtract_additional)

lemma distinct_make_bouquet: "distinct (map fst c) \<Longrightarrow> distinct (map fst (make_bouquet d c))"
  by (simp add: keys_make_bouquet)

lemma map_of_subtract_flowers:
  "map_of (subtract_flowers d c) k =
     map_option (\<lambda>n. case map_of (flowers d) k of None \<Rightarrow> n | Some q \<Rightarrow> n - int_py q) (map_of c k)"
  by (induction c) (auto simp: subtract_flowers_def split: option.splits)

lemma count_of_subtract_flowers:
  "count_of (subtract_flowers d c) k =
     (if k \<in> fst ` set c
      then count_of c k - (case map_of (flowers d) k of None \<Rightarrow> 0 | Some q \<Rightarrow> int_py q)
      else 0)"
proof (cases "map_of c k")
  case None
  then have "k \<notin> fst ` set c" by (simp add: map_of_eq_None_iff)
  with None show ?thesis by (simp add: count_of_def map_of_subtract_flowers)
next
  case (Some n)
  then have "(k, n) \<in> set c" by (rule map_of_SomeD)
  then have "k \<in> fst ` set c" by force
  with Some show ?thesis
    by (simp add: count_of_def map_of_subtract_flowers split: option.splits)
qed

lemma subtract_flowers_empty: "flowers d = [] \<Longrightarrow> subtract_flowers d c = c"
  by (induction c) (auto simp: subtract_flowers_def)

lemma count_of_subtract_additional:
  "0 < a \<Longrightarrow> count_of (subtract_additional a c) k \<le> count_of c k"
  by (induction a c rule: subtract_additional.induct) (auto simp: count_of_Cons)

lemma count_of_make_bouquet_le:
  "count_of (make_bouquet d c) k \<le> count_of (subtract_flowers d c) k"
  by (simp add: make_bouquet_def Let_def count_of_subtract_additional)

lemma subtract_additional_none:
  "\<forall>(k, n)\<in>set c. n < a \<Longrightarrow> subtract_additional a c = c"
  by (induction a c rule: subtract_additional.induct) auto

lemma subtract_additional_first:
  "\<forall>(k', n')\<in>set pre. n' < a \<Longrightarrow> a \<le> n \<Longrightarrow>
   subtract_additional a (pre @ (k, n) # post) = pre @ (k, n - a) # post"
  by (induction pre) auto

lemma subtract_additional_cases:
  "(\<exists>pre key n post. c = pre @ (key, n) # post \<and> (\<forall>(k', n')\<in>set pre. n' < a) \<and> a \<le> n \<and>
       subtract_additional a c = pre @ (key, n - a) # post) \<or>
   ((\<forall>(key, n)\<in>set c. n < a) \<and> subtract_additional a c = c)"
proof (cases "\<exists>x\<in>set c. a \<le> snd x")
  case True
  then obtain pre x post where c: "c = pre @ x # post" and x: "a \<le> snd x"
    and pre: "\<forall>y\<in>set pre. \<not> a \<le> snd y"
    using split_list_first_prop[of c "\<lambda>x. a \<le> snd x"] by blast
  obtain key n where xeq: "x = (key, n)" by (cases x)
  from pre have p: "\<forall>(k', n')\<in>set pre. n' < a" by auto
  from x xeq have "a \<le> n" by simp
  with p have "subtract_additional a (pre @ (key, n) # post) = pre @ (key, n - a) # post"
    by (rule subtract_additional_first)
  with c xeq p \<open>a \<le> n\<close> show ?thesis by blast
next
  case False
  then have n: "\<forall>(key, n)\<in>set c. n < a" by auto
  then have "subtract_additional a c = c" by (rule subtract_additional_none)
  with n show ?thesis by blast
qed

lemma taken_from_in_keys: "taken_from a c = Some k \<Longrightarrow> k \<in> fst ` set c"
  by (induction c) (auto simp: taken_from_def split: if_splits)

lemma taken_from_enough:
  "distinct (map fst c) \<Longrightarrow> taken_from a c = Some k \<Longrightarrow> a \<le> count_of c k"
proof (induction c)
  case Nil then show ?case by (simp add: taken_from_def)
next
  case (Cons x c)
  obtain k' n where x: "x = (k', n)" by (cases x)
  show ?case
  proof (cases "a \<le> n")
    case True
    with Cons.prems x show ?thesis by (simp add: taken_from_def count_of_Cons)
  next
    case False
    with Cons.prems x have t: "taken_from a c = Some k" by (simp add: taken_from_def)
    then have "k \<in> fst ` set c" by (rule taken_from_in_keys)
    with Cons.prems x have "k \<noteq> k'" by auto
    with Cons.IH t Cons.prems x show ?thesis by (simp add: count_of_Cons)
  qed
qed

lemma count_of_subtract_additional_eq:
  "distinct (map fst c) \<Longrightarrow>
   count_of (subtract_additional a c) key =
     count_of c key - (if taken_from a c = Some key then a else 0)"
proof (induction c)
  case Nil then show ?case by (simp add: taken_from_def)
next
  case (Cons x c)
  obtain k n where x: "x = (k, n)" by (cases x)
  show ?case
  proof (cases "a \<le> n")
    case True
    with x show ?thesis by (auto simp: taken_from_def count_of_Cons)
  next
    case False
    have "taken_from a c \<noteq> Some k"
    proof
      assume "taken_from a c = Some k"
      then have "k \<in> fst ` set c" by (rule taken_from_in_keys)
      with Cons.prems x show False by auto
    qed
    moreover from False x have "taken_from a (x # c) = taken_from a c" by (simp add: taken_from_def)
    moreover from Cons have "count_of (subtract_additional a c) key =
     count_of c key - (if taken_from a c = Some key then a else 0)" by simp
    ultimately show ?thesis using False x by (auto simp: count_of_Cons)
  qed
qed

lemma count_of_make_bouquet:
  assumes "distinct (map fst c)"
  shows "count_of (make_bouquet d c) key =
     count_of (subtract_flowers d c) key -
     (if 0 < number_of_additional_flowers d \<and>
         taken_from (number_of_additional_flowers d) (subtract_flowers d c) = Some key
      then number_of_additional_flowers d else 0)"
proof -
  from assms have "distinct (map fst (subtract_flowers d c))" by (simp add: keys_subtract_flowers)
  then show ?thesis
    by (simp add: make_bouquet_def Let_def count_of_subtract_additional_eq)
qed

section \<open>When a design can be made\<close>

lemma enough_flowers_iff:
  assumes c: "distinct (map fst c)" and f: "distinct (map fst (flowers d))"
  shows "enough_flowers d c \<longleftrightarrow>
           (\<forall>(k, q)\<in>set (flowers d). k \<in> fst ` set c \<and> int_py q \<le> count_of c k)"
proof -
  let ?P = "\<lambda>(key, n). case map_of (flowers d) key of None \<Rightarrow> False | Some q \<Rightarrow> n \<ge> int_py q"
  let ?K = "fst ` set (filter ?P c)"
  let ?F = "fst ` set (flowers d)"
  have dK: "distinct (map fst (filter ?P c))" using c by (rule distinct_map_filter)
  have lK: "length (filter ?P c) = card ?K"
    using distinct_card[OF dK] by simp
  have lF: "length (flowers d) = card ?F"
    using distinct_card[OF f] by simp
  have sub: "?K \<subseteq> ?F"
    by (auto split: option.splits dest: map_of_SomeD intro: rev_image_eqI)
  have "enough_flowers d c \<longleftrightarrow> card ?K = card ?F"
    by (simp add: enough_flowers_def matching_flower_numbers_def lK lF)
  also have "\<dots> \<longleftrightarrow> ?K = ?F"
    using sub card_subset_eq[of ?F ?K] by auto
  also have "\<dots> \<longleftrightarrow> (\<forall>k\<in>?F. k \<in> ?K)" using sub by blast
  also have "\<dots> \<longleftrightarrow> (\<forall>(k, q)\<in>set (flowers d). k \<in> fst ` set c \<and> int_py q \<le> count_of c k)"
  proof
    assume a: "\<forall>k\<in>?F. k \<in> ?K"
    show "\<forall>(k, q)\<in>set (flowers d). k \<in> fst ` set c \<and> int_py q \<le> count_of c k"
    proof (clarify)
      fix k q assume kq: "(k, q) \<in> set (flowers d)"
      then have "k \<in> ?F" by force
      with a have "k \<in> ?K" by blast
      then obtain n where n: "(k, n) \<in> set c" and p: "?P (k, n)" by auto
      from f kq have "map_of (flowers d) k = Some q" by simp
      with p have "int_py q \<le> n" by simp
      moreover from c n have "count_of c k = n" by (rule count_of_present)
      ultimately show "k \<in> fst ` set c \<and> int_py q \<le> count_of c k" using n by force
    qed
  next
    assume a: "\<forall>(k, q)\<in>set (flowers d). k \<in> fst ` set c \<and> int_py q \<le> count_of c k"
    show "\<forall>k\<in>?F. k \<in> ?K"
    proof
      fix k assume "k \<in> ?F"
      then obtain q where kq: "(k, q) \<in> set (flowers d)" by auto
      with a have kc: "k \<in> fst ` set c" and le: "int_py q \<le> count_of c k" by auto
      from kc obtain n where n: "(k, n) \<in> set c" by auto
      with c have "count_of c k = n" by (rule count_of_present)
      moreover from f kq have "map_of (flowers d) k = Some q" by simp
      ultimately have "?P (k, n)" using le by simp
      with n show "k \<in> ?K" by force
    qed
  qed
  finally show ?thesis .
qed

lemma enough_flowers_empty: "flowers d = [] \<Longrightarrow> enough_flowers d c"
  by (simp add: enough_flowers_def matching_flower_numbers_def)

lemma enough_flowers_positive:
  assumes "distinct (map fst flowers_counter)" and "well_formed d"
    and pos: "\<forall>(key, q)\<in>set (flowers d). 0 < int_py q"
  shows "enough_flowers d flowers_counter \<longleftrightarrow>
           (\<forall>(key, q)\<in>set (flowers d). int_py q \<le> count_of flowers_counter key)"
proof -
  from assms(2) have f: "distinct (map fst (flowers d))" by (simp add: well_formed_def)
  have "key \<in> fst ` set flowers_counter"
    if "(key, q) \<in> set (flowers d)" "int_py q \<le> count_of flowers_counter key" for key q
  proof (rule ccontr)
    assume "key \<notin> fst ` set flowers_counter"
    then have "count_of flowers_counter key = 0" by (rule count_of_absent)
    with that pos show False by auto
  qed
  then show ?thesis unfolding enough_flowers_iff[OF assms(1) f] by blast
qed

text \<open>
  Claim C4. A design can be made if and only if, for every species it names, the count
  of that species is at least the quantity asked; a quantity 0 never stands in the way.
  The code misses the case of a species that has not arrived yet. The design
  \<^verbatim>\<open>AS0b1\<close> asks 0 flowers of b; after the flower \<^verbatim>\<open>aS\<close> the count of b is 0, which is
  enough, and yet nothing is printed, because the comprehension of lines 72 to 74 runs
  over the keys of the counter and b is not among them. Once b is a key, the same
  design is made with the same count 0 of b: after \<^verbatim>\<open>BS1b1\<close> has taken the only
  flower b, \<^verbatim>\<open>AS0b1\<close> is printed at once, and again on the next flower.
\<close>

theorem zero_quantity_of_unseen_species:
  "production_facility [''AS0b1''] [''aS''] =
     Inr (\<lparr>large_bouquet_designs = [],
           small_bouquet_designs =
             [(CHR ''A'', \<lparr>total_number_of_flowers = ''1'', flowers = [(CHR ''b'', ''0'')],
                           bouquet = ''AS0b''\<rparr>)],
           large_flowers_counter = [], small_flowers_counter = [(CHR ''a'', 1)]\<rparr>,
          [[]]) \<and>
   count_of [(CHR ''a'', 1)] (CHR ''b'') = 0 \<and> int_py ''0'' = 0 \<and>
   production_facility [''BS1b1'', ''AS0b1''] [''bS'', ''aS''] =
     Inr (\<lparr>large_bouquet_designs = [],
           small_bouquet_designs =
             [(CHR ''B'', \<lparr>total_number_of_flowers = ''1'', flowers = [(CHR ''b'', ''1'')],
                           bouquet = ''BSb''\<rparr>),
              (CHR ''A'', \<lparr>total_number_of_flowers = ''1'', flowers = [(CHR ''b'', ''0'')],
                           bouquet = ''AS0b''\<rparr>)],
           large_flowers_counter = [],
           small_flowers_counter = [(CHR ''b'', 0), (CHR ''a'', 0)]\<rparr>,
          [[''BSb'', ''AS0b''], [''AS0b'']])"
proof (intro conjI)
  show "production_facility [''AS0b1''] [''aS''] =
     Inr (\<lparr>large_bouquet_designs = [],
           small_bouquet_designs =
             [(CHR ''A'', \<lparr>total_number_of_flowers = ''1'', flowers = [(CHR ''b'', ''0'')],
                           bouquet = ''AS0b''\<rparr>)],
           large_flowers_counter = [], small_flowers_counter = [(CHR ''a'', 1)]\<rparr>,
          [[]])"
    by code_simp
  show "count_of [(CHR ''a'', 1)] (CHR ''b'') = 0" by (simp add: count_of_def)
  show "int_py ''0'' = 0" by (simp add: int_py_def digit_value_def)
  show "production_facility [''BS1b1'', ''AS0b1''] [''bS'', ''aS''] =
     Inr (\<lparr>large_bouquet_designs = [],
           small_bouquet_designs =
             [(CHR ''B'', \<lparr>total_number_of_flowers = ''1'', flowers = [(CHR ''b'', ''1'')],
                           bouquet = ''BSb''\<rparr>),
              (CHR ''A'', \<lparr>total_number_of_flowers = ''1'', flowers = [(CHR ''b'', ''0'')],
                           bouquet = ''AS0b''\<rparr>)],
           large_flowers_counter = [],
           small_flowers_counter = [(CHR ''b'', 0), (CHR ''a'', 0)]\<rparr>,
          [[''BSb'', ''AS0b''], [''AS0b'']])"
    by code_simp
qed

section \<open>What a match takes from the counter\<close>

text \<open>
  Claim C5, as amended. When a design is made, the loop of lines 81 to 83 lowers the
  count of every species the design names by the quantity asked, leaves it at 0 or
  more, and changes the count of no other species. The count that the match leaves
  (\<open>make_bouquet\<close>, handed on to the rest of the loop over the designs) is that one,
  except for the one species from which the additional flowers are taken: when the
  number of additional flowers is positive, the first key whose count after the named
  flowers is at least that number loses that number too, and it may be a species the
  design names. The count a match leaves for a species the design names is still 0
  or more, and the keys of the counter keep their order.
\<close>

theorem deduction_of_a_match:
  assumes "distinct (map fst flowers_counter)" and "well_formed d"
    and "enough_flowers d flowers_counter"
  shows "match_designs ((name, d) # bouquet_designs) flowers_counter =
           (fst (match_designs bouquet_designs (make_bouquet d flowers_counter)),
            bouquet d # snd (match_designs bouquet_designs (make_bouquet d flowers_counter))) \<and>
         (\<forall>(key, q)\<in>set (flowers d).
            count_of (subtract_flowers d flowers_counter) key
              = count_of flowers_counter key - int_py q \<and>
            0 \<le> count_of (subtract_flowers d flowers_counter) key) \<and>
         (\<forall>key. key \<notin> fst ` set (flowers d) \<longrightarrow>
            count_of (subtract_flowers d flowers_counter) key = count_of flowers_counter key) \<and>
         (\<forall>key. count_of (make_bouquet d flowers_counter) key =
            count_of (subtract_flowers d flowers_counter) key -
            (if 0 < number_of_additional_flowers d \<and>
                taken_from (number_of_additional_flowers d)
                  (subtract_flowers d flowers_counter) = Some key
             then number_of_additional_flowers d else 0)) \<and>
         (\<forall>(key, q)\<in>set (flowers d). 0 \<le> count_of (make_bouquet d flowers_counter) key) \<and>
         map fst (make_bouquet d flowers_counter) = map fst flowers_counter"
proof (intro conjI)
  let ?c1 = "subtract_flowers d flowers_counter"
  let ?a = "number_of_additional_flowers d"
  from assms(2) have f: "distinct (map fst (flowers d))" by (simp add: well_formed_def)
  have d1: "distinct (map fst ?c1)" using assms(1) by (simp add: keys_subtract_flowers)
  show "match_designs ((name, d) # bouquet_designs) flowers_counter =
           (fst (match_designs bouquet_designs (make_bouquet d flowers_counter)),
            bouquet d # snd (match_designs bouquet_designs (make_bouquet d flowers_counter)))"
    using assms(3) by (simp split: prod.splits)
  show named: "\<forall>(key, q)\<in>set (flowers d).
            count_of ?c1 key = count_of flowers_counter key - int_py q \<and> 0 \<le> count_of ?c1 key"
  proof (clarify)
    fix key q assume kq: "(key, q) \<in> set (flowers d)"
    with assms(3) have "key \<in> fst ` set flowers_counter" "int_py q \<le> count_of flowers_counter key"
      unfolding enough_flowers_iff[OF assms(1) f] by auto
    moreover from f kq have "map_of (flowers d) key = Some q" by simp
    ultimately show "count_of ?c1 key = count_of flowers_counter key - int_py q \<and>
            0 \<le> count_of ?c1 key"
      by (simp add: count_of_subtract_flowers)
  qed
  show "\<forall>key. key \<notin> fst ` set (flowers d) \<longrightarrow> count_of ?c1 key = count_of flowers_counter key"
  proof (intro allI impI)
    fix key assume "key \<notin> fst ` set (flowers d)"
    then have "map_of (flowers d) key = None" by (simp add: map_of_eq_None_iff)
    then show "count_of ?c1 key = count_of flowers_counter key"
      by (simp add: count_of_subtract_flowers count_of_absent)
  qed
  show post: "\<forall>key. count_of (make_bouquet d flowers_counter) key =
            count_of ?c1 key -
            (if 0 < ?a \<and> taken_from ?a ?c1 = Some key then ?a else 0)"
    using count_of_make_bouquet[OF assms(1)] by blast
  show "\<forall>(key, q)\<in>set (flowers d). 0 \<le> count_of (make_bouquet d flowers_counter) key"
  proof (clarify)
    fix key q assume kq: "(key, q) \<in> set (flowers d)"
    with named have n: "0 \<le> count_of ?c1 key" by auto
    show "0 \<le> count_of (make_bouquet d flowers_counter) key"
    proof (cases "0 < ?a \<and> taken_from ?a ?c1 = Some key")
      case True
      then have "?a \<le> count_of ?c1 key" using taken_from_enough[OF d1] by blast
      with True post show ?thesis by simp
    next
      case False
      with post n show ?thesis by auto
    qed
  qed
  show "map fst (make_bouquet d flowers_counter) = map fst flowers_counter"
    by (rule keys_make_bouquet)
qed

text \<open>
  The design \<^verbatim>\<open>AS2a1b4\<close> after the flowers a, a, a, b: two of the three flowers a are
  named, and the one additional flower is taken from a as well, which ends at 0 and
  not at 3 - 2.
\<close>

theorem deduction_counterexample:
  "\<not> (\<forall>d flowers_counter. distinct (map fst flowers_counter) \<and> well_formed d \<and>
         enough_flowers d flowers_counter \<longrightarrow>
         (\<forall>(key, q)\<in>set (flowers d).
            count_of (make_bouquet d flowers_counter) key = count_of flowers_counter key - int_py q))"
proof
  assume a: "\<forall>d flowers_counter. distinct (map fst flowers_counter) \<and> well_formed d \<and>
         enough_flowers d flowers_counter \<longrightarrow>
         (\<forall>(key, q)\<in>set (flowers d).
            count_of (make_bouquet d flowers_counter) key = count_of flowers_counter key - int_py q)"
  let ?d = "\<lparr>total_number_of_flowers = ''4'', flowers = [(CHR ''a'', ''2''), (CHR ''b'', ''1'')],
            bouquet = ''AS2a1b''\<rparr>"
  let ?c = "[(CHR ''a'', 3::int), (CHR ''b'', 1)]"
  have "distinct (map fst ?c) \<and> well_formed ?d \<and> enough_flowers ?d ?c"
    by (simp add: well_formed_def decimal_def isdigit_def enough_flowers_def
        matching_flower_numbers_def int_py_def digit_value_def)
  with a have "\<forall>(key, q)\<in>set (flowers ?d).
      count_of (make_bouquet ?d ?c) key = count_of ?c key - int_py q" by blast
  then have "count_of (make_bouquet ?d ?c) (CHR ''a'') = count_of ?c (CHR ''a'') - int_py ''2''"
    by simp
  moreover have "make_bouquet ?d ?c = [(CHR ''a'', 0), (CHR ''b'', 0)]"
    by (simp add: make_bouquet_def number_of_additional_flowers_def subtract_flowers_def
        int_py_def digit_value_def)
  ultimately show False by (simp add: count_of_def int_py_def digit_value_def)
qed

theorem deduction_of_a_match_witness:
  "distinct (map fst [(CHR ''a'', 3::int), (CHR ''b'', 1)]) \<and>
   well_formed \<lparr>total_number_of_flowers = ''4'', flowers = [(CHR ''a'', ''2''), (CHR ''b'', ''1'')],
                bouquet = ''AS2a1b''\<rparr> \<and>
   enough_flowers
     \<lparr>total_number_of_flowers = ''4'', flowers = [(CHR ''a'', ''2''), (CHR ''b'', ''1'')],
      bouquet = ''AS2a1b''\<rparr>
     [(CHR ''a'', 3), (CHR ''b'', 1)] \<and>
   subtract_flowers
     \<lparr>total_number_of_flowers = ''4'', flowers = [(CHR ''a'', ''2''), (CHR ''b'', ''1'')],
      bouquet = ''AS2a1b''\<rparr>
     [(CHR ''a'', 3), (CHR ''b'', 1)] = [(CHR ''a'', 1), (CHR ''b'', 0)] \<and>
   number_of_additional_flowers
     \<lparr>total_number_of_flowers = ''4'', flowers = [(CHR ''a'', ''2''), (CHR ''b'', ''1'')],
      bouquet = ''AS2a1b''\<rparr> = 1 \<and>
   taken_from 1 [(CHR ''a'', 1), (CHR ''b'', 0)] = Some (CHR ''a'') \<and>
   count_of (make_bouquet
     \<lparr>total_number_of_flowers = ''4'', flowers = [(CHR ''a'', ''2''), (CHR ''b'', ''1'')],
      bouquet = ''AS2a1b''\<rparr>
     [(CHR ''a'', 3), (CHR ''b'', 1)]) (CHR ''a'') = 3 - 2 - 1 \<and>
   count_of (make_bouquet
     \<lparr>total_number_of_flowers = ''4'', flowers = [(CHR ''a'', ''2''), (CHR ''b'', ''1'')],
      bouquet = ''AS2a1b''\<rparr>
     [(CHR ''a'', 3), (CHR ''b'', 1)]) (CHR ''b'') = 1 - 1"
proof -
  let ?d = "\<lparr>total_number_of_flowers = ''4'', flowers = [(CHR ''a'', ''2''), (CHR ''b'', ''1'')],
            bouquet = ''AS2a1b''\<rparr>"
  let ?c = "[(CHR ''a'', 3::int), (CHR ''b'', 1)]"
  have h: "distinct (map fst ?c)" "well_formed ?d" "enough_flowers ?d ?c"
    by (simp_all add: well_formed_def decimal_def isdigit_def enough_flowers_def
        matching_flower_numbers_def int_py_def digit_value_def)
  have s: "subtract_flowers ?d ?c = [(CHR ''a'', 1), (CHR ''b'', 0)]"
    by (simp add: subtract_flowers_def int_py_def digit_value_def)
  have a: "number_of_additional_flowers ?d = 1"
    by (simp add: number_of_additional_flowers_def int_py_def digit_value_def)
  have t: "taken_from 1 [(CHR ''a'', 1), (CHR ''b'', 0)] = Some (CHR ''a'')"
    by (simp add: taken_from_def)
  note T = deduction_of_a_match[OF h, of "CHR ''A''" "[]", THEN conjunct2, THEN conjunct2,
      THEN conjunct2, THEN conjunct1, rule_format, unfolded s a t]
  have ca: "count_of (make_bouquet ?d ?c) (CHR ''a'') = 3 - 2 - 1"
    using T[of "CHR ''a''"] by (simp add: count_of_def)
  have cb: "count_of (make_bouquet ?d ?c) (CHR ''b'') = 1 - 1"
    using T[of "CHR ''b''"] by (simp add: count_of_def)
  from h s a t ca cb show ?thesis by blast
qed

section \<open>The loop over the designs\<close>

lemma match_designs_Cons:
  "match_designs ((name, d) # ds) c =
     (if enough_flowers d c
      then (fst (match_designs ds (make_bouquet d c)),
            bouquet d # snd (match_designs ds (make_bouquet d c)))
      else match_designs ds c)"
  by (simp split: prod.splits)


lemma match_designs_skip:
  "\<forall>(name, d)\<in>set pre. \<not> enough_flowers d c \<Longrightarrow>
   match_designs (pre @ rest) c = match_designs rest c"
  by (induction pre) auto

lemma match_designs_none:
  "\<forall>(name, d)\<in>set ds. \<not> enough_flowers d c \<Longrightarrow> match_designs ds c = (c, [])"
  using match_designs_skip[of ds c "[]"] by simp


lemma keys_match_designs: "map fst (fst (match_designs ds c)) = map fst c"
  by (induction ds c rule: match_designs.induct) (auto simp: keys_make_bouquet split: prod.splits)




section \<open>One flower of the stream\<close>

lemma take_flower_short: "take_flower [] f = Inl IndexError" "take_flower [x] f = Inl IndexError"
  by (simp_all add: take_flower_def)

lemma take_flower_large:
  "take_flower (species # CHR ''L'' # rest) f =
     Inr (f\<lparr>large_flowers_counter :=
              fst (match_designs (large_bouquet_designs f)
                     (increment species (large_flowers_counter f)))\<rparr>,
          snd (match_designs (large_bouquet_designs f)
                 (increment species (large_flowers_counter f))))"
  by (simp add: take_flower_def match_flower_streams_with_bouquet_design_structures_def
      split: prod.splits)

lemma take_flower_small:
  "size_letter \<noteq> CHR ''L'' \<Longrightarrow>
   take_flower (species # size_letter # rest) f =
     Inr (f\<lparr>small_flowers_counter :=
              fst (match_designs (small_bouquet_designs f)
                     (increment species (small_flowers_counter f)))\<rparr>,
          snd (match_designs (small_bouquet_designs f)
                 (increment species (small_flowers_counter f))))"
  by (simp add: take_flower_def match_flower_streams_with_bouquet_design_structures_def
      split: prod.splits)

lemma take_flower_Inr:
  assumes "take_flower flower f = Inr (f', printed)"
  shows "\<exists>species size_letter rest. flower = species # size_letter # rest \<and>
     (if size_letter = CHR ''L''
      then \<exists>c. match_designs (large_bouquet_designs f)
                  (increment species (large_flowers_counter f)) = (c, printed) \<and>
               f' = f\<lparr>large_flowers_counter := c\<rparr>
      else \<exists>c. match_designs (small_bouquet_designs f)
                  (increment species (small_flowers_counter f)) = (c, printed) \<and>
               f' = f\<lparr>small_flowers_counter := c\<rparr>)"
proof (cases flower)
  case Nil
  with assms show ?thesis by (simp add: take_flower_short)
next
  case (Cons species r)
  show ?thesis
  proof (cases r)
    case Nil
    with Cons assms show ?thesis by (simp add: take_flower_short)
  next
    case (Cons size_letter rest)
    note fl = \<open>flower = species # r\<close> Cons
    show ?thesis
    proof (cases "size_letter = CHR ''L''")
      case True
      with assms fl show ?thesis
        by (simp add: take_flower_large) (metis prod.collapse)
    next
      case False
      with assms fl show ?thesis
        by (simp add: take_flower_small) (metis prod.collapse)
    qed
  qed
qed

lemma take_flower_total:
  "2 \<le> length flower \<Longrightarrow> \<exists>f' printed. take_flower flower f = Inr (f', printed)"
proof -
  assume "2 \<le> length flower"
  then obtain species size_letter rest where "flower = species # size_letter # rest"
    by (cases flower; cases "tl flower") auto
  then show ?thesis
    by (cases "size_letter = CHR ''L''") (simp_all add: take_flower_large take_flower_small)
qed

lemma take_flower_designs:
  assumes "take_flower flower f = Inr (f', printed)"
  shows "large_bouquet_designs f' = large_bouquet_designs f \<and>
         small_bouquet_designs f' = small_bouquet_designs f"
  using take_flower_Inr[OF assms] by (auto split: if_splits)

lemma take_flower_valid:
  assumes "take_flower flower f = Inr (f', printed)" and "valid_facility f"
  shows "valid_facility f'"
proof -
  from take_flower_Inr[OF assms(1)] obtain species size_letter rest where
    c: "if size_letter = CHR ''L''
      then \<exists>c. match_designs (large_bouquet_designs f)
                  (increment species (large_flowers_counter f)) = (c, printed) \<and>
               f' = f\<lparr>large_flowers_counter := c\<rparr>
      else \<exists>c. match_designs (small_bouquet_designs f)
                  (increment species (small_flowers_counter f)) = (c, printed) \<and>
               f' = f\<lparr>small_flowers_counter := c\<rparr>" by blast
  show ?thesis
  proof (cases "size_letter = CHR ''L''")
    case True
    with c obtain c1 where m: "match_designs (large_bouquet_designs f)
                  (increment species (large_flowers_counter f)) = (c1, printed)"
      and f': "f' = f\<lparr>large_flowers_counter := c1\<rparr>" by auto
    from keys_match_designs[of "large_bouquet_designs f" "increment species (large_flowers_counter f)"] m
    have "map fst c1 = map fst (increment species (large_flowers_counter f))" by simp
    moreover from assms(2) have "distinct (map fst (increment species (large_flowers_counter f)))"
      by (simp add: valid_facility_def distinct_increment)
    ultimately have "distinct (map fst c1)" by simp
    with f' assms(2) show ?thesis by (simp add: valid_facility_def)
  next
    case False
    with c obtain c1 where m: "match_designs (small_bouquet_designs f)
                  (increment species (small_flowers_counter f)) = (c1, printed)"
      and f': "f' = f\<lparr>small_flowers_counter := c1\<rparr>" by auto
    from keys_match_designs[of "small_bouquet_designs f" "increment species (small_flowers_counter f)"] m
    have "map fst c1 = map fst (increment species (small_flowers_counter f))" by simp
    moreover from assms(2) have "distinct (map fst (increment species (small_flowers_counter f)))"
      by (simp add: valid_facility_def distinct_increment)
    ultimately have "distinct (map fst c1)" by simp
    with f' assms(2) show ?thesis by (simp add: valid_facility_def)
  qed
qed

lemma take_flowers_Cons_Inr:
  assumes "take_flowers (flower # stream) f = Inr (f'', printed)"
  shows "\<exists>f' lines rest. take_flower flower f = Inr (f', lines) \<and>
           take_flowers stream f' = Inr (f'', rest) \<and> printed = lines # rest"
  using assms by (auto split: sum.splits prod.splits)

lemma take_flowers_designs:
  "take_flowers stream f = Inr (f', printed) \<Longrightarrow>
     large_bouquet_designs f' = large_bouquet_designs f \<and>
     small_bouquet_designs f' = small_bouquet_designs f \<and>
     length printed = length stream"
proof (induction stream arbitrary: f printed)
  case Nil then show ?case by simp
next
  case (Cons flower stream)
  from take_flowers_Cons_Inr[OF Cons.prems] obtain f1 lines rest where
    a: "take_flower flower f = Inr (f1, lines)" and b: "take_flowers stream f1 = Inr (f', rest)"
    and c: "printed = lines # rest" by blast
  from Cons.IH[OF b] take_flower_designs[OF a] c show ?case by simp
qed

lemma take_flowers_total:
  "\<forall>flower\<in>set stream. 2 \<le> length flower \<Longrightarrow>
   \<exists>f' printed. take_flowers stream f = Inr (f', printed)"
proof (induction stream arbitrary: f)
  case Nil then show ?case by simp
next
  case (Cons flower stream)
  from Cons.prems have "2 \<le> length flower" by simp
  then obtain f1 lines where "take_flower flower f = Inr (f1, lines)"
    using take_flower_total[of flower f] by blast
  moreover from Cons.prems have "\<forall>flower\<in>set stream. 2 \<le> length flower" by simp
  from Cons.IH[OF this, of f1] obtain f2 rest where "take_flowers stream f1 = Inr (f2, rest)"
    by blast
  ultimately show ?case by simp
qed

lemma take_flowers_valid:
  "take_flowers stream f = Inr (f', printed) \<Longrightarrow> valid_facility f \<Longrightarrow> valid_facility f'"
proof (induction stream arbitrary: f printed)
  case Nil then show ?case by simp
next
  case (Cons flower stream)
  from take_flowers_Cons_Inr[OF Cons.prems(1)] obtain f1 lines rest where
    a: "take_flower flower f = Inr (f1, lines)" and b: "take_flowers stream f1 = Inr (f', rest)"
    by blast
  from take_flower_valid[OF a Cons.prems(2)] have "valid_facility f1" .
  from Cons.IH[OF b this] show ?case .
qed

lemma production_facility_start:
  assumes "production_facility bds stream = Inr (f, printed)"
  shows "\<exists>f0. valid_facility f0 \<and> large_flowers_counter f0 = [] \<and> small_flowers_counter f0 = [] \<and>
           take_flowers stream f0 = Inr (f, printed)"
proof -
  let ?e = "\<lparr>large_bouquet_designs = [], small_bouquet_designs = [],
              large_flowers_counter = [], small_flowers_counter = []\<rparr>"
  from assms obtain f0 where a: "add_bouquet_designs bds ?e = Inr f0"
    and b: "take_flowers stream f0 = Inr (f, printed)"
    by (auto simp: production_facility_def split: sum.splits)
  have "valid_facility ?e" by (simp add: valid_facility_def)
  from add_bouquet_designs_valid[OF a this] b show ?thesis by auto
qed

lemma production_facility_valid:
  assumes "production_facility bds stream = Inr (f, printed)"
  shows "valid_facility f"
  using production_facility_start[OF assms] take_flowers_valid by blast

lemma production_facility_total:
  assumes "\<forall>bd\<in>set bds. findall_digits (drop 2 bd) \<noteq> []"
    and "\<forall>flower\<in>set stream. 2 \<le> length flower"
  shows "\<exists>f printed. production_facility bds stream = Inr (f, printed)"
proof -
  let ?e = "\<lparr>large_bouquet_designs = [], small_bouquet_designs = [],
              large_flowers_counter = [], small_flowers_counter = []\<rparr>"
  from add_bouquet_designs_total[OF assms(1), of ?e] obtain f0 where
    "add_bouquet_designs bds ?e = Inr f0" by blast
  moreover from take_flowers_total[OF assms(2), of f0] obtain f printed where
    "take_flowers stream f0 = Inr (f, printed)" by blast
  ultimately show ?thesis by (simp add: production_facility_def)
qed

text \<open>
  Claim C9. When a flower arrives and no design of its size class can be made from the
  counter with that flower counted, nothing is printed, the count of the flower's
  species in the counter of its size class grows by one, and every other count of
  that counter, the counter of the other size class and both containers stay as they
  were.
\<close>

theorem no_match_arrival:
  assumes "valid_facility f"
    and "flower = species # size_letter # rest"
    and "\<forall>(name, d)\<in>set (if size_letter = CHR ''L'' then large_bouquet_designs f
                           else small_bouquet_designs f).
           \<not> enough_flowers d
               (increment species (if size_letter = CHR ''L'' then large_flowers_counter f
                                   else small_flowers_counter f))"
  shows "\<exists>f'. take_flower flower f = Inr (f', []) \<and>
           large_bouquet_designs f' = large_bouquet_designs f \<and>
           small_bouquet_designs f' = small_bouquet_designs f \<and>
           (if size_letter = CHR ''L''
            then large_flowers_counter f' = increment species (large_flowers_counter f) \<and>
                 small_flowers_counter f' = small_flowers_counter f
            else small_flowers_counter f' = increment species (small_flowers_counter f) \<and>
                 large_flowers_counter f' = large_flowers_counter f) \<and>
           (\<forall>key. count_of (large_flowers_counter f') key =
                    count_of (large_flowers_counter f) key +
                    (if size_letter = CHR ''L'' \<and> key = species then 1 else 0)) \<and>
           (\<forall>key. count_of (small_flowers_counter f') key =
                    count_of (small_flowers_counter f) key +
                    (if size_letter \<noteq> CHR ''L'' \<and> key = species then 1 else 0))"
proof (cases "size_letter = CHR ''L''")
  case True
  with assms(3) have "match_designs (large_bouquet_designs f)
      (increment species (large_flowers_counter f))
      = (increment species (large_flowers_counter f), [])"
    by (intro match_designs_none) simp
  with True assms(2) have "take_flower flower f =
      Inr (f\<lparr>large_flowers_counter := increment species (large_flowers_counter f)\<rparr>, [])"
    by (simp add: take_flower_large)
  with True show ?thesis by (simp add: count_of_increment)
next
  case False
  with assms(3) have "match_designs (small_bouquet_designs f)
      (increment species (small_flowers_counter f))
      = (increment species (small_flowers_counter f), [])"
    by (intro match_designs_none) simp
  with False assms(2) have "take_flower flower f =
      Inr (f\<lparr>small_flowers_counter := increment species (small_flowers_counter f)\<rparr>, [])"
    by (simp add: take_flower_small)
  with False show ?thesis by (simp add: count_of_increment)
qed

theorem no_match_arrival_witness:
  "valid_facility
     \<lparr>large_bouquet_designs = [],
      small_bouquet_designs =
        [(CHR ''A'', \<lparr>total_number_of_flowers = ''3'', flowers = [(CHR ''a'', ''2'')],
                      bouquet = ''AS2a''\<rparr>)],
      large_flowers_counter = [(CHR ''a'', 5)], small_flowers_counter = []\<rparr> \<and>
   \<not> enough_flowers
       \<lparr>total_number_of_flowers = ''3'', flowers = [(CHR ''a'', ''2'')], bouquet = ''AS2a''\<rparr>
       (increment (CHR ''a'') []) \<and>
   take_flower ''aS''
     \<lparr>large_bouquet_designs = [],
      small_bouquet_designs =
        [(CHR ''A'', \<lparr>total_number_of_flowers = ''3'', flowers = [(CHR ''a'', ''2'')],
                      bouquet = ''AS2a''\<rparr>)],
      large_flowers_counter = [(CHR ''a'', 5)], small_flowers_counter = []\<rparr> =
   Inr (\<lparr>large_bouquet_designs = [],
         small_bouquet_designs =
           [(CHR ''A'', \<lparr>total_number_of_flowers = ''3'', flowers = [(CHR ''a'', ''2'')],
                         bouquet = ''AS2a''\<rparr>)],
         large_flowers_counter = [(CHR ''a'', 5)], small_flowers_counter = [(CHR ''a'', 1)]\<rparr>,
        [])"
proof -
  let ?d = "\<lparr>total_number_of_flowers = ''3'', flowers = [(CHR ''a'', ''2'')], bouquet = ''AS2a''\<rparr>"
  let ?f = "\<lparr>large_bouquet_designs = [], small_bouquet_designs = [(CHR ''A'', ?d)],
      large_flowers_counter = [(CHR ''a'', 5)], small_flowers_counter = []\<rparr>"
  have v: "valid_facility ?f"
    by (simp add: valid_facility_def well_formed_def decimal_def isdigit_def)
  have n: "\<not> enough_flowers ?d (increment (CHR ''a'') [])"
    by (simp add: enough_flowers_def matching_flower_numbers_def increment_def count_of_def
        int_py_def digit_value_def)
  then have h: "\<forall>(name, d)\<in>set (if CHR ''S'' = CHR ''L'' then large_bouquet_designs ?f
                           else small_bouquet_designs ?f).
           \<not> enough_flowers d
               (increment (CHR ''a'') (if CHR ''S'' = CHR ''L'' then large_flowers_counter ?f
                                   else small_flowers_counter ?f))"
    by simp
  from no_match_arrival[of ?f "''aS''" "CHR ''a''" "CHR ''S''" "[]", OF v _ h]
  obtain f' where t: "take_flower ''aS'' ?f = Inr (f', [])"
    and "large_bouquet_designs f' = large_bouquet_designs ?f"
      "small_bouquet_designs f' = small_bouquet_designs ?f"
      "small_flowers_counter f' = increment (CHR ''a'') (small_flowers_counter ?f)"
      "large_flowers_counter f' = large_flowers_counter ?f"
    by auto
  then have "f' = \<lparr>large_bouquet_designs = [], small_bouquet_designs = [(CHR ''A'', ?d)],
      large_flowers_counter = [(CHR ''a'', 5)], small_flowers_counter = [(CHR ''a'', 1)]\<rparr>"
    by (cases f') (simp add: increment_def count_of_def)
  with t n v show ?thesis by simp
qed

section \<open>The additional flowers\<close>

lemma keys_step:
  "(if x \<in> set K then K else K @ [x]) @
     filter (\<lambda>k. k \<notin> set (if x \<in> set K then K else K @ [x])) ys
   = K @ filter (\<lambda>k. k \<notin> set K) (x # filter (\<lambda>y. y \<noteq> x) ys)"
proof (cases "x \<in> set K")
  case True
  then have "filter (\<lambda>k. k \<notin> set K) (filter (\<lambda>y. y \<noteq> x) ys) = filter (\<lambda>k. k \<notin> set K) ys"
    by (auto intro: filter_cong)
  with True show ?thesis by simp
next
  case False
  have "filter (\<lambda>k. k \<notin> set (K @ [x])) ys = filter (\<lambda>k. k \<notin> set K) (filter (\<lambda>y. y \<noteq> x) ys)"
    by (auto intro: filter_cong)
  with False show ?thesis by simp
qed

lemma take_flowers_keys:
  "take_flowers stream f = Inr (f', printed) \<Longrightarrow>
     map fst (large_flowers_counter f') =
       map fst (large_flowers_counter f) @
       filter (\<lambda>k. k \<notin> set (map fst (large_flowers_counter f)))
         (first_appearances (species_of True stream)) \<and>
     map fst (small_flowers_counter f') =
       map fst (small_flowers_counter f) @
       filter (\<lambda>k. k \<notin> set (map fst (small_flowers_counter f)))
         (first_appearances (species_of False stream))"
proof (induction stream arbitrary: f printed)
  case Nil then show ?case by (simp add: species_of_def)
next
  case (Cons flower stream)
  from take_flowers_Cons_Inr[OF Cons.prems] obtain f1 lines rest where
    a: "take_flower flower f = Inr (f1, lines)" and b: "take_flowers stream f1 = Inr (f', rest)"
    by blast
  note IH = Cons.IH[OF b]
  from take_flower_Inr[OF a] obtain species size_letter r where
    fl: "flower = species # size_letter # r" and
    c: "if size_letter = CHR ''L''
      then \<exists>c. match_designs (large_bouquet_designs f)
                  (increment species (large_flowers_counter f)) = (c, lines) \<and>
               f1 = f\<lparr>large_flowers_counter := c\<rparr>
      else \<exists>c. match_designs (small_bouquet_designs f)
                  (increment species (small_flowers_counter f)) = (c, lines) \<and>
               f1 = f\<lparr>small_flowers_counter := c\<rparr>" by blast
  show ?case
  proof (cases "size_letter = CHR ''L''")
    case True
    with c obtain c1 where m: "match_designs (large_bouquet_designs f)
                  (increment species (large_flowers_counter f)) = (c1, lines)"
      and f1: "f1 = f\<lparr>large_flowers_counter := c1\<rparr>" by auto
    let ?K = "map fst (large_flowers_counter f)"
    from keys_match_designs[of "large_bouquet_designs f" "increment species (large_flowers_counter f)"] m
    have "map fst c1 = (if species \<in> set ?K then ?K else ?K @ [species])"
      by (simp add: keys_increment)
    with f1 have k1: "map fst (large_flowers_counter f1) = (if species \<in> set ?K then ?K else ?K @ [species])"
      and s1: "small_flowers_counter f1 = small_flowers_counter f" by simp_all
    from True fl have sp: "species_of True (flower # stream) = species # species_of True stream"
      "species_of False (flower # stream) = species_of False stream"
      by (simp_all add: species_of_def)
    from IH show ?thesis unfolding k1 s1 sp first_appearances.simps keys_step by simp
  next
    case False
    with c obtain c1 where m: "match_designs (small_bouquet_designs f)
                  (increment species (small_flowers_counter f)) = (c1, lines)"
      and f1: "f1 = f\<lparr>small_flowers_counter := c1\<rparr>" by auto
    let ?K = "map fst (small_flowers_counter f)"
    from keys_match_designs[of "small_bouquet_designs f" "increment species (small_flowers_counter f)"] m
    have "map fst c1 = (if species \<in> set ?K then ?K else ?K @ [species])"
      by (simp add: keys_increment)
    with f1 have k1: "map fst (small_flowers_counter f1) = (if species \<in> set ?K then ?K else ?K @ [species])"
      and s1: "large_flowers_counter f1 = large_flowers_counter f" by simp_all
    from False fl have sp: "species_of False (flower # stream) = species # species_of False stream"
      "species_of True (flower # stream) = species_of True stream"
      by (simp_all add: species_of_def)
    from IH show ?thesis unfolding k1 s1 sp first_appearances.simps keys_step by simp
  qed
qed

text \<open>
  Claim C3. When a design can be made and asks more flowers in total than it names
  (\<open>number_of_additional_flowers\<close> is positive), then after the named flowers are
  taken either the first entry of the counter whose count is at least that number
  loses exactly that number, every entry before and after it staying as it was, or no
  entry has so many and the counter stays as the named flowers left it; the bouquet is
  printed in both cases. The entries of each counter stand in the order in which the
  species first appeared among the flowers of that size class in the stream.
\<close>

theorem filler_step:
  "(distinct (map fst flowers_counter) \<and> well_formed d \<and> enough_flowers d flowers_counter \<and>
    0 < number_of_additional_flowers d \<longrightarrow>
      ((\<exists>pre key n post.
          subtract_flowers d flowers_counter = pre @ (key, n) # post \<and>
          (\<forall>(k', n')\<in>set pre. n' < number_of_additional_flowers d) \<and>
          number_of_additional_flowers d \<le> n \<and>
          make_bouquet d flowers_counter
            = pre @ (key, n - number_of_additional_flowers d) # post) \<or>
       ((\<forall>(key, n)\<in>set (subtract_flowers d flowers_counter).
           n < number_of_additional_flowers d) \<and>
        make_bouquet d flowers_counter = subtract_flowers d flowers_counter)) \<and>
      snd (match_designs ((name, d) # bouquet_designs) flowers_counter)
        = bouquet d # snd (match_designs bouquet_designs (make_bouquet d flowers_counter))) \<and>
   (production_facility descriptions stream_of_flowers = Inr (f, printed) \<longrightarrow>
      map fst (large_flowers_counter f) = first_appearances (species_of True stream_of_flowers) \<and>
      map fst (small_flowers_counter f) = first_appearances (species_of False stream_of_flowers))"
proof (intro conjI impI)
  assume h: "distinct (map fst flowers_counter) \<and> well_formed d \<and>
    enough_flowers d flowers_counter \<and> 0 < number_of_additional_flowers d"
  then have m: "make_bouquet d flowers_counter
      = subtract_additional (number_of_additional_flowers d) (subtract_flowers d flowers_counter)"
    by (simp add: make_bouquet_def)
  show "(\<exists>pre key n post.
          subtract_flowers d flowers_counter = pre @ (key, n) # post \<and>
          (\<forall>(k', n')\<in>set pre. n' < number_of_additional_flowers d) \<and>
          number_of_additional_flowers d \<le> n \<and>
          make_bouquet d flowers_counter
            = pre @ (key, n - number_of_additional_flowers d) # post) \<or>
       ((\<forall>(key, n)\<in>set (subtract_flowers d flowers_counter).
           n < number_of_additional_flowers d) \<and>
        make_bouquet d flowers_counter = subtract_flowers d flowers_counter)"
    unfolding m by (rule subtract_additional_cases)
  from h show "snd (match_designs ((name, d) # bouquet_designs) flowers_counter)
        = bouquet d # snd (match_designs bouquet_designs (make_bouquet d flowers_counter))"
    by (simp split: prod.splits)
next
  assume p: "production_facility descriptions stream_of_flowers = Inr (f, printed)"
  from production_facility_start[OF p] obtain f0 where
    l: "large_flowers_counter f0 = []" and s: "small_flowers_counter f0 = []"
    and t: "take_flowers stream_of_flowers f0 = Inr (f, printed)" by blast
  from take_flowers_keys[OF t] l s
  show "map fst (large_flowers_counter f) = first_appearances (species_of True stream_of_flowers)"
    and "map fst (small_flowers_counter f) = first_appearances (species_of False stream_of_flowers)"
    by simp_all
qed

text \<open>
  The design \<^verbatim>\<open>AS1a3\<close> and the flowers b, b, a: the two additional flowers are taken
  from b, the first species of the stream.
\<close>

theorem filler_step_witness:
  "distinct (map fst [(CHR ''b'', 2::int), (CHR ''a'', 1)]) \<and>
   well_formed \<lparr>total_number_of_flowers = ''3'', flowers = [(CHR ''a'', ''1'')], bouquet = ''AS1a''\<rparr> \<and>
   enough_flowers
     \<lparr>total_number_of_flowers = ''3'', flowers = [(CHR ''a'', ''1'')], bouquet = ''AS1a''\<rparr>
     [(CHR ''b'', 2), (CHR ''a'', 1)] \<and>
   number_of_additional_flowers
     \<lparr>total_number_of_flowers = ''3'', flowers = [(CHR ''a'', ''1'')], bouquet = ''AS1a''\<rparr> = 2 \<and>
   subtract_flowers
     \<lparr>total_number_of_flowers = ''3'', flowers = [(CHR ''a'', ''1'')], bouquet = ''AS1a''\<rparr>
     [(CHR ''b'', 2), (CHR ''a'', 1)] = [(CHR ''b'', 2), (CHR ''a'', 0)] \<and>
   make_bouquet
     \<lparr>total_number_of_flowers = ''3'', flowers = [(CHR ''a'', ''1'')], bouquet = ''AS1a''\<rparr>
     [(CHR ''b'', 2), (CHR ''a'', 1)] = [(CHR ''b'', 0), (CHR ''a'', 0)] \<and>
   snd (match_designs
     [(CHR ''A'', \<lparr>total_number_of_flowers = ''3'', flowers = [(CHR ''a'', ''1'')],
                   bouquet = ''AS1a''\<rparr>)]
     [(CHR ''b'', 2), (CHR ''a'', 1)]) = [''AS1a''] \<and>
   production_facility [''AS1a3''] [''bS'', ''bS'', ''aS''] =
     Inr (\<lparr>large_bouquet_designs = [],
           small_bouquet_designs =
             [(CHR ''A'', \<lparr>total_number_of_flowers = ''3'', flowers = [(CHR ''a'', ''1'')],
                           bouquet = ''AS1a''\<rparr>)],
           large_flowers_counter = [],
           small_flowers_counter = [(CHR ''b'', 0), (CHR ''a'', 0)]\<rparr>,
          [[], [], [''AS1a'']]) \<and>
   first_appearances (species_of False [''bS'', ''bS'', ''aS'']) = ''ba''"
proof -
  let ?d = "\<lparr>total_number_of_flowers = ''3'', flowers = [(CHR ''a'', ''1'')], bouquet = ''AS1a''\<rparr>"
  let ?c = "[(CHR ''b'', 2::int), (CHR ''a'', 1)]"
  let ?f = "\<lparr>large_bouquet_designs = [], small_bouquet_designs = [(CHR ''A'', ?d)],
           large_flowers_counter = [],
           small_flowers_counter = [(CHR ''b'', 0), (CHR ''a'', 0)]\<rparr>"
  have a: "number_of_additional_flowers ?d = 2"
    by (simp add: number_of_additional_flowers_def int_py_def digit_value_def)
  have h: "distinct (map fst ?c) \<and> well_formed ?d \<and> enough_flowers ?d ?c \<and>
      0 < number_of_additional_flowers ?d"
    unfolding a
    by (simp add: well_formed_def decimal_def isdigit_def enough_flowers_def
        matching_flower_numbers_def int_py_def digit_value_def)
  have s: "subtract_flowers ?d ?c = [(CHR ''b'', 2), (CHR ''a'', 0)]"
    by (simp add: subtract_flowers_def int_py_def digit_value_def)
  have run: "production_facility [''AS1a3''] [''bS'', ''bS'', ''aS''] = Inr (?f, [[], [], [''AS1a'']])"
    by code_simp
  note T = filler_step[of ?c ?d "CHR ''A''" "[]" "[''AS1a3'']" "[''bS'', ''bS'', ''aS'']" ?f
      "[[], [], [''AS1a'']]"]
  from T[THEN conjunct1, THEN mp, OF h]
  have m: "make_bouquet ?d ?c = [(CHR ''b'', 0), (CHR ''a'', 0)]"
    and p: "snd (match_designs [(CHR ''A'', ?d)] ?c) = [''AS1a'']"
    unfolding a s by (auto simp: Cons_eq_append_conv)
  from T[THEN conjunct2, THEN mp, OF run]
  have k: "first_appearances (species_of False [''bS'', ''bS'', ''aS'']) = ''ba''"
    by simp
  from h a s m p run k show ?thesis by blast
qed

section \<open>A design that names no species\<close>

lemma match_designs_prints_empty_design:
  "(name, d) \<in> set ds \<Longrightarrow> flowers d = [] \<Longrightarrow> bouquet d \<in> set (snd (match_designs ds c))"
proof (induction ds arbitrary: c)
  case Nil then show ?case by simp
next
  case (Cons x ds)
  obtain n' d' where x: "x = (n', d')" by (cases x)
  show ?case
  proof (cases "x = (name, d)")
    case True
    with Cons.prems(2) x have "enough_flowers d' c" by (simp add: enough_flowers_empty)
    with True x show ?thesis by (simp split: prod.splits)
  next
    case False
    with Cons.prems have "(name, d) \<in> set ds" by simp
    from Cons.IH[OF this Cons.prems(2)] x show ?thesis
      by (simp add: match_designs_Cons del: match_designs.simps)
  qed
qed

lemma empty_design_printed:
  assumes "take_flowers stream_of_flowers f = Inr (f', printed)"
    and "(name, d) \<in> set (if large then large_bouquet_designs f else small_bouquet_designs f)"
    and "flowers d = []"
  shows "length printed = length stream_of_flowers \<and>
         (\<forall>i<length stream_of_flowers.
            ((stream_of_flowers ! i) ! 1 = CHR ''L'') = large \<longrightarrow> bouquet d \<in> set (printed ! i)) \<and>
         (\<forall>flowers_counter. enough_flowers d flowers_counter \<and>
            subtract_flowers d flowers_counter = flowers_counter)"
  using assms
proof (induction stream_of_flowers arbitrary: f printed)
  case Nil
  then show ?case by (auto simp: enough_flowers_empty subtract_flowers_empty)
next
  case (Cons flower stream)
  from take_flowers_Cons_Inr[OF Cons.prems(1)] obtain f1 lines rest where
    a: "take_flower flower f = Inr (f1, lines)" and b: "take_flowers stream f1 = Inr (f', rest)"
    and p: "printed = lines # rest" by blast
  from take_flower_designs[OF a] Cons.prems(2)
  have in1: "(name, d) \<in> set (if large then large_bouquet_designs f1 else small_bouquet_designs f1)"
    by (cases large) simp_all
  note IH = Cons.IH[OF b in1 Cons.prems(3)]
  have first: "bouquet d \<in> set lines" if l: "(flower ! 1 = CHR ''L'') = large"
  proof -
    from take_flower_Inr[OF a] obtain species size_letter r where
      fl: "flower = species # size_letter # r" and
      c: "if size_letter = CHR ''L''
        then \<exists>c. match_designs (large_bouquet_designs f)
                    (increment species (large_flowers_counter f)) = (c, lines) \<and>
                 f1 = f\<lparr>large_flowers_counter := c\<rparr>
        else \<exists>c. match_designs (small_bouquet_designs f)
                    (increment species (small_flowers_counter f)) = (c, lines) \<and>
                 f1 = f\<lparr>small_flowers_counter := c\<rparr>" by blast
    show ?thesis
    proof (cases "size_letter = CHR ''L''")
      case True
      with l fl have "large" by simp
      with Cons.prems(2) have "(name, d) \<in> set (large_bouquet_designs f)" by simp
      from match_designs_prints_empty_design[OF this Cons.prems(3)] c True
      show ?thesis by (metis snd_conv)
    next
      case False
      with l fl have "\<not> large" by simp
      with Cons.prems(2) have "(name, d) \<in> set (small_bouquet_designs f)" by simp
      from match_designs_prints_empty_design[OF this Cons.prems(3)] c False
      show ?thesis by (metis snd_conv)
    qed
  qed
  have "\<forall>i<length (flower # stream).
          (((flower # stream) ! i) ! 1 = CHR ''L'') = large \<longrightarrow> bouquet d \<in> set (printed ! i)"
  proof (intro allI impI)
    fix i assume i: "i < length (flower # stream)"
      and l: "(((flower # stream) ! i) ! 1 = CHR ''L'') = large"
    show "bouquet d \<in> set (printed ! i)"
    proof (cases i)
      case 0
      with l first p show ?thesis by simp
    next
      case (Suc j)
      with i l IH p show ?thesis by simp
    qed
  qed
  with IH p show ?case by simp
qed

text \<open>
  Claim C10. A design whose \<open>flowers\<close> is empty can be made from every counter, taking
  the named flowers changes nothing, and the containers are never changed by the
  stream: every flower of the design's size class prints the design's bouquet, for as
  long as the stream lasts.
\<close>

theorem empty_design_every_flower:
  assumes "valid_facility f"
    and "take_flowers stream_of_flowers f = Inr (f', printed)"
    and "(name, d) \<in> set (if large then large_bouquet_designs f else small_bouquet_designs f)"
    and "flowers d = []"
  shows "length printed = length stream_of_flowers \<and>
         (\<forall>i<length stream_of_flowers.
            ((stream_of_flowers ! i) ! 1 = CHR ''L'') = large \<longrightarrow> bouquet d \<in> set (printed ! i)) \<and>
         large_bouquet_designs f' = large_bouquet_designs f \<and>
         small_bouquet_designs f' = small_bouquet_designs f \<and>
         (\<forall>flowers_counter. enough_flowers d flowers_counter \<and>
            subtract_flowers d flowers_counter = flowers_counter)"
  using empty_design_printed[OF assms(2,3,4)] take_flowers_designs[OF assms(2)] by simp

theorem empty_design_every_flower_witness:
  "valid_facility
     \<lparr>large_bouquet_designs = [],
      small_bouquet_designs =
        [(CHR ''A'', \<lparr>total_number_of_flowers = ''12'', flowers = [], bouquet = ''AS''\<rparr>)],
      large_flowers_counter = [], small_flowers_counter = []\<rparr> \<and>
   take_flowers [''aS'', ''bL'', ''aS'']
     \<lparr>large_bouquet_designs = [],
      small_bouquet_designs =
        [(CHR ''A'', \<lparr>total_number_of_flowers = ''12'', flowers = [], bouquet = ''AS''\<rparr>)],
      large_flowers_counter = [], small_flowers_counter = []\<rparr> =
   Inr (\<lparr>large_bouquet_designs = [],
         small_bouquet_designs =
           [(CHR ''A'', \<lparr>total_number_of_flowers = ''12'', flowers = [], bouquet = ''AS''\<rparr>)],
         large_flowers_counter = [(CHR ''b'', 1)], small_flowers_counter = [(CHR ''a'', 2)]\<rparr>,
        [[''AS''], [], [''AS'']]) \<and>
   ''AS'' \<in> set ([[''AS''], [], [''AS'']] ! 0) \<and> ''AS'' \<in> set ([[''AS''], [], [''AS'']] ! 2)"
proof -
  let ?d = "\<lparr>total_number_of_flowers = ''12'', flowers = [], bouquet = ''AS''\<rparr>"
  let ?f = "\<lparr>large_bouquet_designs = [], small_bouquet_designs = [(CHR ''A'', ?d)],
      large_flowers_counter = [], small_flowers_counter = []\<rparr>"
  let ?f' = "\<lparr>large_bouquet_designs = [], small_bouquet_designs = [(CHR ''A'', ?d)],
      large_flowers_counter = [(CHR ''b'', 1)], small_flowers_counter = [(CHR ''a'', 2)]\<rparr>"
  have run: "take_flowers [''aS'', ''bL'', ''aS''] ?f = Inr (?f', [[''AS''], [], [''AS'']])"
    by code_simp
  have i: "(CHR ''A'', ?d) \<in> set (if False then large_bouquet_designs ?f else small_bouquet_designs ?f)"
    by simp
  have e: "flowers ?d = []" by simp
  have v: "valid_facility ?f"
    by (simp add: valid_facility_def well_formed_def decimal_def isdigit_def)
  note T = empty_design_every_flower[OF v run i e, THEN conjunct2, THEN conjunct1, rule_format]
  have "bouquet ?d \<in> set ([[''AS''], [], [''AS'']] ! 0)" by (rule T) simp_all
  moreover have "bouquet ?d \<in> set ([[''AS''], [], [''AS'']] ! 2)" by (rule T) simp_all
  ultimately show ?thesis using run v by simp
qed

section \<open>At most one bouquet for each flower\<close>

lemma single_match:
  assumes s: "distinct (map fst s)"
    and d1: "distinct (map fst (flowers d1))" "positive d1"
    and d: "distinct (map fst (flowers d))" "positive d"
    and q1: "\<not> enough_flowers d1 s" and q: "\<not> enough_flowers d s"
    and e1: "enough_flowers d1 (increment t s)"
  shows "\<not> enough_flowers d (make_bouquet d1 (increment t s))"
proof
  let ?c = "increment t s"
  let ?c2 = "make_bouquet d1 ?c"
  assume e: "enough_flowers d ?c2"
  have dc: "distinct (map fst ?c)" using s by (rule distinct_increment)
  have dc2: "distinct (map fst ?c2)" using dc by (rule distinct_make_bouquet)
  have keys_c: "fst ` set ?c = insert t (fst ` set s)"
    using keys_increment[of t s] unfolding keys_image by (auto split: if_splits)
  have keys_c2: "fst ` set ?c2 = fst ` set ?c"
    unfolding keys_image by (simp add: keys_make_bouquet)
  \<comment> \<open>the design that was made needed the flower that arrived, and all of them\<close>
  from q1 s d1(1) obtain k q where kq: "(k, q) \<in> set (flowers d1)"
    and no: "\<not> (k \<in> fst ` set s \<and> int_py q \<le> count_of s k)"
    by (auto simp: enough_flowers_iff)
  from e1 dc d1(1) kq have yes: "k \<in> fst ` set ?c" "int_py q \<le> count_of ?c k"
    by (auto simp: enough_flowers_iff)
  from d1(2) kq have pos: "0 < int_py q" by (auto simp: positive_def)
  have kt: "k = t"
  proof (rule ccontr)
    assume "k \<noteq> t"
    with yes keys_c have "k \<in> fst ` set s" "int_py q \<le> count_of s k"
      by (auto simp: count_of_increment)
    with no show False by simp
  qed
  have "int_py q = count_of ?c t"
  proof (cases "t \<in> fst ` set s")
    case True
    with no kt have "count_of s t < int_py q" by simp
    with yes kt show ?thesis by (simp add: count_of_increment)
  next
    case False
    then have "count_of s t = 0" by (rule count_of_absent)
    with yes kt pos show ?thesis by (simp add: count_of_increment)
  qed
  moreover from d1(1) kq kt have "map_of (flowers d1) t = Some q" by simp
  moreover have "t \<in> fst ` set ?c" using keys_c by simp
  ultimately have "count_of (subtract_flowers d1 ?c) t = 0"
    using count_of_subtract_flowers[of d1 ?c t] by simp
  with count_of_make_bouquet_le[of d1 ?c t] have zero: "count_of ?c2 t \<le> 0" by simp
  \<comment> \<open>so no design can be made from what is left\<close>
  from e dc2 d(1) have all: "\<forall>(k, q)\<in>set (flowers d). k \<in> fst ` set ?c2 \<and> int_py q \<le> count_of ?c2 k"
    by (simp add: enough_flowers_iff)
  have "\<forall>(k, q)\<in>set (flowers d). k \<in> fst ` set s \<and> int_py q \<le> count_of s k"
  proof (clarify)
    fix k q assume kq': "(k, q) \<in> set (flowers d)"
    with all have in2: "k \<in> fst ` set ?c2" and le2: "int_py q \<le> count_of ?c2 k" by auto
    from d(2) kq' have "0 < int_py q" by (auto simp: positive_def)
    with le2 zero have "k \<noteq> t" by auto
    with in2 keys_c2 keys_c have "k \<in> fst ` set s" by auto
    moreover have "count_of ?c2 k \<le> count_of (subtract_flowers d1 ?c) k"
      by (rule count_of_make_bouquet_le)
    moreover have "count_of (subtract_flowers d1 ?c) k \<le> count_of ?c k"
    proof -
      have "0 \<le> (case map_of (flowers d1) k of None \<Rightarrow> 0 | Some q \<Rightarrow> int_py q)"
      proof (cases "map_of (flowers d1) k")
        case None then show ?thesis by simp
      next
        case (Some q')
        then have "(k, q') \<in> set (flowers d1)" by (rule map_of_SomeD)
        with d1(2) have "0 < int_py q'" by (auto simp: positive_def)
        with Some show ?thesis by simp
      qed
      moreover have "k \<in> fst ` set ?c" using in2 keys_c2 by simp
      ultimately show ?thesis using count_of_subtract_flowers[of d1 ?c k] by simp
    qed
    moreover have "count_of ?c k = count_of s k" using \<open>k \<noteq> t\<close> by (simp add: count_of_increment)
    ultimately show "k \<in> fst ` set s \<and> int_py q \<le> count_of s k" using le2 by simp
  qed
  with s d(1) have "enough_flowers d s" by (simp add: enough_flowers_iff)
  with q show False by simp
qed

lemma arrival_one:
  assumes "steady ds s"
  shows "\<exists>c'. (match_designs ds (increment t s) = (c', []) \<or>
               (\<exists>line. match_designs ds (increment t s) = (c', [line]))) \<and> steady ds c'"
proof -
  let ?c = "increment t s"
  from assms have s: "distinct (map fst s)"
    and ds: "\<forall>(name, d)\<in>set ds. distinct (map fst (flowers d)) \<and> positive d"
    and q: "\<forall>(name, d)\<in>set ds. \<not> enough_flowers d s"
    by (simp_all add: steady_def quiet_def)
  have dc: "distinct (map fst ?c)" using s by (rule distinct_increment)
  show ?thesis
  proof (cases "\<exists>x\<in>set ds. enough_flowers (snd x) ?c")
    case False
    then have n: "\<forall>(name, d)\<in>set ds. \<not> enough_flowers d ?c" by auto
    then have "match_designs ds ?c = (?c, [])" by (rule match_designs_none)
    moreover from n dc ds have "steady ds ?c" by (simp add: steady_def quiet_def)
    ultimately show ?thesis by blast
  next
    case True
    then obtain pre x post where split: "ds = pre @ x # post"
      and x: "enough_flowers (snd x) ?c"
      and pre: "\<forall>y\<in>set pre. \<not> enough_flowers (snd y) ?c"
      using split_list_first_prop[of ds "\<lambda>x. enough_flowers (snd x) ?c"] by blast
    obtain n1 d1 where xeq: "x = (n1, d1)" by (cases x)
    let ?c2 = "make_bouquet d1 ?c"
    from split xeq have in1: "(n1, d1) \<in> set ds" by simp
    have left: "\<forall>(name, d)\<in>set ds. \<not> enough_flowers d ?c2"
    proof (clarify)
      fix name d assume i: "(name, d) \<in> set ds" and e: "enough_flowers d ?c2"
      from ds q in1 have "distinct (map fst (flowers d1))" "positive d1" "\<not> enough_flowers d1 s"
        by auto
      moreover from ds q i have "distinct (map fst (flowers d))" "positive d" "\<not> enough_flowers d s"
        by auto
      moreover from x xeq have "enough_flowers d1 ?c" by simp
      ultimately have "\<not> enough_flowers d ?c2" using s single_match by blast
      with e show False by simp
    qed
    then have "\<forall>(name, d)\<in>set post. \<not> enough_flowers d ?c2" using split by auto
    then have "match_designs post ?c2 = (?c2, [])" by (rule match_designs_none)
    moreover from pre have "match_designs (pre @ x # post) ?c = match_designs (x # post) ?c"
      by (intro match_designs_skip) auto
    ultimately have "match_designs ds ?c = (?c2, [bouquet d1])"
      using split xeq x by simp
    moreover from left ds dc have "steady ds ?c2"
      by (simp add: steady_def quiet_def distinct_make_bouquet)
    ultimately show ?thesis by blast
  qed
qed

lemma take_flower_steady:
  assumes st: "facility_steady f" and t: "take_flower flower f = Inr (f', printed)"
  shows "facility_steady f' \<and> length printed \<le> 1"
proof -
  from take_flower_Inr[OF t] obtain species size_letter rest where
    fl: "flower = species # size_letter # rest" and
    r: "if size_letter = CHR ''L''
      then \<exists>c. match_designs (large_bouquet_designs f)
                  (increment species (large_flowers_counter f)) = (c, printed) \<and>
               f' = f\<lparr>large_flowers_counter := c\<rparr>
      else \<exists>c. match_designs (small_bouquet_designs f)
                  (increment species (small_flowers_counter f)) = (c, printed) \<and>
               f' = f\<lparr>small_flowers_counter := c\<rparr>" by blast
  show ?thesis
  proof (cases "size_letter = CHR ''L''")
    case True
    with r obtain c where m: "match_designs (large_bouquet_designs f)
                  (increment species (large_flowers_counter f)) = (c, printed)"
      and f': "f' = f\<lparr>large_flowers_counter := c\<rparr>" by auto
    from st have "steady (large_bouquet_designs f) (large_flowers_counter f)"
      by (simp add: facility_steady_def)
    from arrival_one[OF this, of species] m
    have "steady (large_bouquet_designs f) c \<and> length printed \<le> 1" by auto
    with st f' show ?thesis by (simp add: facility_steady_def)
  next
    case False
    with r obtain c where m: "match_designs (small_bouquet_designs f)
                  (increment species (small_flowers_counter f)) = (c, printed)"
      and f': "f' = f\<lparr>small_flowers_counter := c\<rparr>" by auto
    from st have "steady (small_bouquet_designs f) (small_flowers_counter f)"
      by (simp add: facility_steady_def)
    from arrival_one[OF this, of species] m
    have "steady (small_bouquet_designs f) c \<and> length printed \<le> 1" by auto
    with st f' show ?thesis by (simp add: facility_steady_def)
  qed
qed

lemma take_flowers_steady:
  "facility_steady f \<Longrightarrow> take_flowers stream f = Inr (f', printed) \<Longrightarrow>
     facility_steady f' \<and> (\<forall>lines\<in>set printed. length lines \<le> 1)"
proof (induction stream arbitrary: f printed)
  case Nil then show ?case by simp
next
  case (Cons flower stream)
  from take_flowers_Cons_Inr[OF Cons.prems(2)] obtain f1 lines rest where
    a: "take_flower flower f = Inr (f1, lines)" and b: "take_flowers stream f1 = Inr (f', rest)"
    and c: "printed = lines # rest" by blast
  from take_flower_steady[OF Cons.prems(1) a] have "facility_steady f1" "length lines \<le> 1"
    by simp_all
  with Cons.IH[OF _ b] c show ?case by simp
qed

lemma steady_empty:
  assumes "\<forall>(name, d)\<in>set ds. well_formed d \<and> positive d"
  shows "steady ds []"
  using assms
  by (auto simp: steady_def quiet_def well_formed_def positive_def enough_flowers_def
      matching_flower_numbers_def)

text \<open>
  Claim C1, as amended. In a run of the facility in which every stored design names at
  least one species and asks a positive number of each, every flower of the stream
  prints at most one bouquet. The loop of lines 71 to 93 has no \<^verbatim>\<open>break\<close>: it tries
  every design of the container, each on what the designs made before it have left.
\<close>

theorem one_bouquet_per_flower:
  assumes "production_facility bouquet_designs stream_of_flowers = Inr (f, printed)"
    and "\<forall>(name, d)\<in>set (large_bouquet_designs f) \<union> set (small_bouquet_designs f). positive d"
  shows "length printed = length stream_of_flowers \<and> (\<forall>lines\<in>set printed. length lines \<le> 1)"
proof -
  from production_facility_start[OF assms(1)] obtain f0 where w: "valid_facility f0"
    and l: "large_flowers_counter f0 = []" and s: "small_flowers_counter f0 = []"
    and t: "take_flowers stream_of_flowers f0 = Inr (f, printed)" by blast
  from take_flowers_designs[OF t] have same: "large_bouquet_designs f = large_bouquet_designs f0"
    "small_bouquet_designs f = small_bouquet_designs f0"
    and len: "length printed = length stream_of_flowers" by simp_all
  from w assms(2) same have "steady (large_bouquet_designs f0) []" "steady (small_bouquet_designs f0) []"
    by (auto intro!: steady_empty simp: valid_facility_def)
  with l s have "facility_steady f0" by (simp add: facility_steady_def)
  from take_flowers_steady[OF this t] len show ?thesis by simp
qed

text \<open>
  The designs \<^verbatim>\<open>AS12\<close> and \<^verbatim>\<open>BS12\<close> name no species; the single flower \<^verbatim>\<open>aS\<close> prints
  both bouquets.
\<close>

theorem one_bouquet_per_flower_counterexample:
  "\<not> (\<forall>bouquet_designs stream_of_flowers f printed.
        production_facility bouquet_designs stream_of_flowers = Inr (f, printed) \<longrightarrow>
        (\<forall>lines\<in>set printed. length lines \<le> 1))"
proof
  assume a: "\<forall>bouquet_designs stream_of_flowers f printed.
        production_facility bouquet_designs stream_of_flowers = Inr (f, printed) \<longrightarrow>
        (\<forall>lines\<in>set printed. length lines \<le> 1)"
  have "production_facility [''AS12'', ''BS12''] [''aS''] =
    Inr (\<lparr>large_bouquet_designs = [],
          small_bouquet_designs =
            [(CHR ''A'', \<lparr>total_number_of_flowers = ''12'', flowers = [], bouquet = ''AS''\<rparr>),
             (CHR ''B'', \<lparr>total_number_of_flowers = ''12'', flowers = [], bouquet = ''BS''\<rparr>)],
          large_flowers_counter = [], small_flowers_counter = [(CHR ''a'', 1)]\<rparr>,
         [[''AS'', ''BS'']])"
    by code_simp
  with a have "\<forall>lines\<in>set [[''AS'', ''BS'']]. length lines \<le> 1" by blast
  then show False by simp
qed

theorem one_bouquet_per_flower_witness:
  "production_facility [''AS2a1b3'', ''BL1c1''] [''aS'', ''aS'', ''cL'', ''bS''] =
    Inr (\<lparr>large_bouquet_designs =
            [(CHR ''B'', \<lparr>total_number_of_flowers = ''1'', flowers = [(CHR ''c'', ''1'')],
                          bouquet = ''BLc''\<rparr>)],
          small_bouquet_designs =
            [(CHR ''A'', \<lparr>total_number_of_flowers = ''3'',
                          flowers = [(CHR ''a'', ''2''), (CHR ''b'', ''1'')],
                          bouquet = ''AS2a1b''\<rparr>)],
          large_flowers_counter = [(CHR ''c'', 0)],
          small_flowers_counter = [(CHR ''a'', 0), (CHR ''b'', 0)]\<rparr>,
         [[], [], [''BLc''], [''AS2a1b'']]) \<and>
   positive \<lparr>total_number_of_flowers = ''1'', flowers = [(CHR ''c'', ''1'')], bouquet = ''BLc''\<rparr> \<and>
   positive \<lparr>total_number_of_flowers = ''3'', flowers = [(CHR ''a'', ''2''), (CHR ''b'', ''1'')],
             bouquet = ''AS2a1b''\<rparr> \<and>
   list_all (\<lambda>lines. length lines \<le> 1) [[], [], [''BLc''], [''AS2a1b'']]"
proof -
  let ?B = "\<lparr>total_number_of_flowers = ''1'', flowers = [(CHR ''c'', ''1'')], bouquet = ''BLc''\<rparr>"
  let ?A = "\<lparr>total_number_of_flowers = ''3'', flowers = [(CHR ''a'', ''2''), (CHR ''b'', ''1'')],
             bouquet = ''AS2a1b''\<rparr>"
  let ?f = "\<lparr>large_bouquet_designs = [(CHR ''B'', ?B)], small_bouquet_designs = [(CHR ''A'', ?A)],
          large_flowers_counter = [(CHR ''c'', 0)],
          small_flowers_counter = [(CHR ''a'', 0), (CHR ''b'', 0)]\<rparr>"
  have run: "production_facility [''AS2a1b3'', ''BL1c1''] [''aS'', ''aS'', ''cL'', ''bS''] =
      Inr (?f, [[], [], [''BLc''], [''AS2a1b'']])"
    by code_simp
  have p: "positive ?B" "positive ?A"
    by (simp_all add: positive_def int_py_def digit_value_def)
  then have h: "\<forall>(name, d)\<in>set (large_bouquet_designs ?f) \<union> set (small_bouquet_designs ?f).
      positive d" by simp
  from one_bouquet_per_flower[OF run h]
  have "list_all (\<lambda>lines. length lines \<le> 1) [[], [], [''BLc''], [''AS2a1b'']]"
    by (simp add: list_all_iff)
  with run p show ?thesis by blast
qed

end
